theory Spec2Isabelle
  imports Main
begin

section \<open>Log console (src/core/console.ts)\<close>

text \<open>
  The arguments of a console call are JavaScript values.  The formatter only asks whether
  a value is a string; everything else it hands to built-ins of the runtime
  (\<^verbatim>\<open>String\<close>, \<^verbatim>\<open>parseInt\<close>, \<^verbatim>\<open>parseFloat\<close>, \<^verbatim>\<open>JSON.stringify\<close>, \<^verbatim>\<open>typeof\<close>).  Those
  built-ins are parameters of the model; strings are kept concrete.
\<close>

datatype 'a jsval = JString string | JOther 'a

datatype stringify_result = StringifyThrows | StringifyUndefined | StringifyText string

record 'a builtins =
  toString :: "'a \<Rightarrow> string"
  parseInt10 :: "'a jsval \<Rightarrow> string"
  parseFloat :: "'a jsval \<Rightarrow> string"
  JSON_stringify :: "'a jsval \<Rightarrow> stringify_result"
  isObject :: "'a \<Rightarrow> bool"

text \<open>\<^verbatim>\<open>String(arg)\<close>: a string is itself.\<close>

fun String :: "'a builtins \<Rightarrow> 'a jsval \<Rightarrow> string" where
  "String B (JString s) = s"
| "String B (JOther a) = toString B a"

fun escapeChar :: "char \<Rightarrow> string" where
  "escapeChar c =
     (if c = CHR ''&'' then ''&amp;''
      else if c = CHR ''<'' then ''&lt;''
      else if c = CHR ''>'' then ''&gt;''
      else if c = CHR 0x22 then ''&quot;''
      else if c = CHR 0x27 then ''&#39;''
      else if c = CHR 0x60 then ''&#96;''
      else [c])"

definition escapeHtml :: "string \<Rightarrow> string" where
  "escapeHtml str = concat (map escapeChar str)"

text \<open>
  The \<^verbatim>\<open>switch (specifier)\<close> of \<^verbatim>\<open>Console.format\<close> (lines 60--84), entered after
  \<^verbatim>\<open>const arg = args[argIndex++]\<close>.  It returns what the case adds to \<open>argIndex\<close> and
  what it appends to \<open>result\<close>.
\<close>

definition format_switch :: "'a builtins \<Rightarrow> char \<Rightarrow> 'a jsval \<Rightarrow> nat \<times> string" where
  "format_switch B specifier arg =
     (if specifier = CHR ''s'' then (0, escapeHtml (String B arg))
      else if specifier = CHR ''d'' \<or> specifier = CHR ''i'' then (0, parseInt10 B arg)
      else if specifier = CHR ''f'' then (0, parseFloat B arg)
      else if specifier = CHR ''o'' \<or> specifier = CHR ''O'' then
        (0, case JSON_stringify B arg of
              StringifyText t \<Rightarrow> ''<pre>'' @ escapeHtml t @ ''</pre>''
            | StringifyUndefined \<Rightarrow> ''<pre>undefined</pre>''
            | StringifyThrows \<Rightarrow> escapeHtml (String B arg))
      else if specifier = CHR ''c'' then (1, [])
      else (0, ''%'' @ [specifier]))"

text \<open>
  The scanning loop of \<^verbatim>\<open>Console.format\<close> (lines 53--91).  The second argument is the
  part of the format string from index \<open>i\<close> on; \<open>argIndex\<close> and \<open>result\<close> are the loop's
  variables.  It returns \<open>(argIndex, result)\<close> at the end of the format string.
\<close>

fun format_scan ::
  "'a builtins \<Rightarrow> string \<Rightarrow> 'a jsval list \<Rightarrow> nat \<Rightarrow> string \<Rightarrow> nat \<times> string" where
  "format_scan B [] args argIndex result = (argIndex, result)"
| "format_scan B [c] args argIndex result = (argIndex, result @ escapeHtml [c])"
| "format_scan B (c # specifier # rest) args argIndex result =
     (if c = CHR ''%'' then
        (if argIndex < length args then
           (case format_switch B specifier (args ! argIndex) of
              (skip, out) \<Rightarrow> format_scan B rest args (argIndex + 1 + skip) (result @ out))
         else format_scan B rest args argIndex (result @ ''%'' @ [specifier]))
      else format_scan B (specifier # rest) args argIndex (result @ escapeHtml [c]))"

text \<open>Lines 94--96: the arguments from \<open>argIndex\<close> on, each after a space.\<close>

definition format_rest :: "'a builtins \<Rightarrow> 'a jsval list \<Rightarrow> nat \<Rightarrow> string" where
  "format_rest B args argIndex =
     concat (map (\<lambda>arg. '' '' @ escapeHtml (String B arg)) (drop argIndex args))"

text \<open>Lines 101--140: without a format string every argument is rendered and the
  renderings are joined by single spaces.\<close>

definition format_plain_arg :: "'a builtins \<Rightarrow> 'a jsval \<Rightarrow> string" where
  "format_plain_arg B arg =
     (case arg of
        JString s \<Rightarrow> escapeHtml s
      | JOther a \<Rightarrow>
          (if isObject B a then
             (case JSON_stringify B arg of
                StringifyText t \<Rightarrow> ''<pre>'' @ escapeHtml t @ ''</pre>''
              | StringifyUndefined \<Rightarrow> escapeHtml (String B arg)
              | StringifyThrows \<Rightarrow> escapeHtml (String B arg))
           else escapeHtml (String B arg)))"

fun join_space :: "string list \<Rightarrow> string" where
  "join_space [] = []"
| "join_space [s] = s"
| "join_space (s # t # ss) = s @ '' '' @ join_space (t # ss)"

definition newline_to_br :: "string \<Rightarrow> string" where
  "newline_to_br s = concat (map (\<lambda>c. if c = CHR 0x0A then ''<br>'' else [c]) s)"

definition format :: "'a builtins \<Rightarrow> 'a jsval list \<Rightarrow> string" where
  "format B args =
     newline_to_br
       (case args of
          JString formatString # _ \<Rightarrow>
            (case format_scan B formatString args 1 [] of
               (argIndex, result) \<Rightarrow> result @ format_rest B args argIndex)
        | _ \<Rightarrow> join_space (map (format_plain_arg B) args))"

datatype Level = LOG | INFO | WARN | ERROR

record 'a Message =
  level :: Level
  message :: "'a jsval list"
  error :: bool
  html :: string
  uuid :: string

text \<open>
  The console extends the event emitter; what it emits is recorded in \<open>emitted\<close>, in
  order.  \<^verbatim>\<open>Array.shift\<close> on an empty queue returns \<^verbatim>\<open>undefined\<close>, hence the option in
  the payload of an overflow.
\<close>

datatype 'a ConsoleEvent =
    Ev_log "'a Message"
  | Ev_overflow "'a Message option"
  | Ev_clear "'a Message list"

record 'a Console =
  logQueue :: "'a Message list"
  maxLogQueueLength :: nat
  emitted :: "'a ConsoleEvent list"

definition new_Console :: "'a Console" where
  "new_Console = \<lparr>logQueue = [], maxLogQueueLength = 20, emitted = []\<rparr>"

definition shift :: "'m list \<Rightarrow> 'm option \<times> 'm list" where
  "shift q = (case q of [] \<Rightarrow> (None, []) | m # ms \<Rightarrow> (Some m, ms))"

text \<open>\<^verbatim>\<open>clear()\<close> (lines 174--176), also reached through \<^verbatim>\<open>console.clear()\<close>.\<close>

definition clear :: "'a Console \<Rightarrow> 'a Console" where
  "clear c = c\<lparr>emitted := emitted c @ [Ev_clear (logQueue c)]\<rparr>"

text \<open>
  A call of the printer callback (lines 157--170).  Building the message runs
  \<^verbatim>\<open>Console.format\<close>, which hands the arguments to \<^verbatim>\<open>String\<close>, \<^verbatim>\<open>parseInt\<close>,
  \<^verbatim>\<open>parseFloat\<close> and \<^verbatim>\<open>JSON.stringify\<close> and so runs the \<^verbatim>\<open>toString\<close>, \<^verbatim>\<open>toJSON\<close> and
  getters of the arguments: code of the module that holds this console.  What that code
  returns is in the built-ins; what it does besides is an input of the call: the calls
  it makes on this same console while the message is being formatted (printer calls and
  clears, in order), and whether the formatting ends by throwing.  The string is what
  \<^verbatim>\<open>crypto.randomUUID()\<close> returns.  The one listener in the repository, the manager's
  log stream on the \<^verbatim>\<open>log\<close> event, serialises the message, which may run the
  conversions again; \<^verbatim>\<open>emit\<close> catches what a listener throws, and a call made on the
  console from there comes after the push and the event, as a call of its own.
\<close>

datatype 'a PrinterCall =
  PrinterCall Level "'a jsval list" bool string "'a ConsoleOp list" bool
and 'a ConsoleOp = Op_print "'a PrinterCall" | Op_clear

text \<open>
  The callback: the eviction when the queue is full, then the message literal, in which
  \<^verbatim>\<open>Console.format\<close> runs (with the calls made on the console meanwhile), then the push
  and the \<^verbatim>\<open>log\<close> event.  When formatting throws, the callback is left by that exception
  after the eviction and before the push.
\<close>

fun printer :: "'a builtins \<Rightarrow> 'a Console \<Rightarrow> 'a PrinterCall \<Rightarrow> 'a Console"
  and apply_op :: "'a builtins \<Rightarrow> 'a Console \<Rightarrow> 'a ConsoleOp \<Rightarrow> 'a Console" where
  "printer B c (PrinterCall lvl args isWarn u reentered throws) =
     (let c1 =
        (if length (logQueue c) \<ge> maxLogQueueLength c then
           (case shift (logQueue c) of
              (m, q) \<Rightarrow> c\<lparr>logQueue := q, emitted := emitted c @ [Ev_overflow m]\<rparr>)
         else c);
          c2 = foldl (apply_op B) c1 reentered
      in if throws then c2
         else
           (let msg = \<lparr>level = lvl, message = args, error = isWarn,
                       html = format B args, uuid = u\<rparr>
            in c2\<lparr>logQueue := logQueue c2 @ [msg], emitted := emitted c2 @ [Ev_log msg]\<rparr>))"
| "apply_op B c (Op_print call) = printer B c call"
| "apply_op B c Op_clear = clear c"

text \<open>
  Specification vocabulary for the console.  A plain call is one whose formatting neither
  uses the console nor throws; \<open>msg_of\<close> is the message such a call builds and \<open>prints\<close>
  a run of calls.  \<open>trace_at N ms i\<close> is what the \<open>i\<close>-th call of a run should emit when
  the queue holds at most \<open>N\<close> messages, \<open>overflowed\<close> the messages carried by the overflow
  events of a trace, and \<open>pushed\<close> and \<open>printed\<close> the messages that a call and a sequence
  of operations push, in the order of the pushes.
\<close>

definition msg_of :: "'a builtins \<Rightarrow> Level \<times> 'a jsval list \<times> bool \<times> string \<Rightarrow> 'a Message" where
  "msg_of B p = (case p of (lvl, args, isWarn, u) \<Rightarrow>
     \<lparr>level = lvl, message = args, error = isWarn, html = format B args, uuid = u\<rparr>)"

definition plain :: "Level \<times> 'a jsval list \<times> bool \<times> string \<Rightarrow> 'a PrinterCall" where
  "plain p = (case p of (lvl, args, isWarn, u) \<Rightarrow> PrinterCall lvl args isWarn u [] False)"

definition prints :: "'a builtins \<Rightarrow> 'a Console \<Rightarrow> 'a PrinterCall list \<Rightarrow> 'a Console" where
  "prints B c calls = foldl (printer B) c calls"

definition trace_at :: "nat \<Rightarrow> 'a Message list \<Rightarrow> nat \<Rightarrow> 'a ConsoleEvent list" where
  "trace_at N ms i =
     (if N \<le> i then [Ev_overflow (Some (ms ! (i - N)))] else []) @ [Ev_log (ms ! i)]"

fun overflowed :: "'a ConsoleEvent list \<Rightarrow> 'a Message list" where
  "overflowed [] = []"
| "overflowed (Ev_overflow (Some m) # es) = m # overflowed es"
| "overflowed (_ # es) = overflowed es"

fun pushed :: "'a builtins \<Rightarrow> 'a PrinterCall \<Rightarrow> 'a Message list"
  and pushed_by :: "'a builtins \<Rightarrow> 'a ConsoleOp \<Rightarrow> 'a Message list" where
  "pushed B (PrinterCall lvl args isWarn u reentered throws) =
     concat (map (pushed_by B) reentered)
       @ (if throws then [] else [msg_of B (lvl, args, isWarn, u)])"
| "pushed_by B (Op_print call) = pushed B call"
| "pushed_by B Op_clear = []"

definition printed :: "'a builtins \<Rightarrow> 'a ConsoleOp list \<Rightarrow> 'a Message list" where
  "printed B ops = concat (map (pushed_by B) ops)"

text \<open>
  Concrete input used below: a console that twenty plain calls have filled, and a call
  with one object as argument whose conversion to text logs a line of its own.
\<close>

definition full_console :: "'a builtins \<Rightarrow> 'a Console" where
  "full_console B =
     prints B new_Console (map (\<lambda>i. plain (LOG, [JString ''line''], False, ''id'')) [0..<20])"

definition talkative :: "'a \<Rightarrow> 'a PrinterCall" where
  "talkative obj =
     PrinterCall LOG [JOther obj] False ''outer''
       [Op_print (PrinterCall LOG [JString ''converting''] False ''inner'' [] False)] False"

section \<open>Router (src/http/router.ts)\<close>

text \<open>
  A trie node.  \<open>children\<close> is the JavaScript \<^verbatim>\<open>Map\<close> of static children, kept as an
  association list in insertion order with one entry per key; handlers are opaque values
  of type \<open>'h\<close>.
\<close>

datatype 'h RouteNode =
  RouteNode (handler: "'h option")
            (children: "(string \<times> 'h RouteNode) list")
            (paramchild: "(string \<times> 'h RouteNode) option")
            (wildcardchild: "'h RouteNode option")

definition createnode :: "'h RouteNode" where
  "createnode = RouteNode None [] None None"

text \<open>\<^verbatim>\<open>Map.set\<close>: an existing key keeps its place, a new key goes last.\<close>

fun Map_set :: "'k \<Rightarrow> 'v \<Rightarrow> ('k \<times> 'v) list \<Rightarrow> ('k \<times> 'v) list" where
  "Map_set k v [] = [(k, v)]"
| "Map_set k v (p # ps) = (if fst p = k then (k, v) # ps else p # Map_set k v ps)"

text \<open>\<^verbatim>\<open>path.split('/')\<close> and \<^verbatim>\<open>parsepath\<close>, which drops the empty pieces.\<close>

fun split_on :: "char \<Rightarrow> string \<Rightarrow> string list" where
  "split_on d [] = [[]]"
| "split_on d (c # cs) =
     (if c = d then [] # split_on d cs
      else (case split_on d cs of [] \<Rightarrow> [[c]] | s # ss \<Rightarrow> (c # s) # ss))"

definition parsepath :: "string \<Rightarrow> string list" where
  "parsepath path = filter (\<lambda>s. length s > 0) (split_on CHR ''/'' path)"

text \<open>
  \<^verbatim>\<open>addroute\<close> walks down from the root, creating the nodes that are missing, and sets
  the handler of the node it ends on; a wildcard segment ends the walk.  The function
  below is that walk on the segments that are left, returning the node with the path
  below it updated.
\<close>

fun addroute_walk :: "'h RouteNode \<Rightarrow> string list \<Rightarrow> 'h \<Rightarrow> 'h RouteNode" where
  "addroute_walk node [] h =
     RouteNode (Some h) (children node) (paramchild node) (wildcardchild node)"
| "addroute_walk node (segment # segments) h =
     (if take 1 segment = '':'' then
        (let pc = (case paramchild node of
                     None \<Rightarrow> (drop 1 segment, createnode)
                   | Some pc \<Rightarrow> pc)
         in RouteNode (handler node) (children node)
              (Some (fst pc, addroute_walk (snd pc) segments h)) (wildcardchild node))
      else if segment = ''*'' then
        (let w = (case wildcardchild node of None \<Rightarrow> createnode | Some w \<Rightarrow> w)
         in RouteNode (handler node) (children node) (paramchild node)
              (Some (RouteNode (Some h) (children w) (paramchild w) (wildcardchild w))))
      else
        (let c = (case map_of (children node) segment of None \<Rightarrow> createnode | Some c \<Rightarrow> c)
         in RouteNode (handler node)
              (Map_set segment (addroute_walk c segments h) (children node))
              (paramchild node) (wildcardchild node)))"

datatype HTTPMethod = GET | POST | PUT | DELETE | PATCH | HEAD | OPTIONS | TRACE | CONNECT

text \<open>The router's \<^verbatim>\<open>$routes\<close> map has exactly the nine methods as keys, from the
  constructor on; it is a function on \<open>HTTPMethod\<close>.  A request's method is any string:
  \<open>method_of\<close> is the lookup of the key.\<close>

type_synonym 'h Routes = "HTTPMethod \<Rightarrow> 'h RouteNode"

definition new_Router :: "'h Routes" where
  "new_Router = (\<lambda>method. createnode)"

definition method_of :: "string \<Rightarrow> HTTPMethod option" where
  "method_of s =
     (if s = ''GET'' then Some GET else if s = ''POST'' then Some POST
      else if s = ''PUT'' then Some PUT else if s = ''DELETE'' then Some DELETE
      else if s = ''PATCH'' then Some PATCH else if s = ''HEAD'' then Some HEAD
      else if s = ''OPTIONS'' then Some OPTIONS else if s = ''TRACE'' then Some TRACE
      else if s = ''CONNECT'' then Some CONNECT else None)"

definition addroute :: "'h Routes \<Rightarrow> HTTPMethod \<Rightarrow> string \<Rightarrow> 'h \<Rightarrow> 'h Routes" where
  "addroute routes method path h =
     routes (method := addroute_walk (routes method) (parsepath path) h)"

text \<open>
  \<^verbatim>\<open>params\<close> is a plain object (\<^verbatim>\<open>{}\<close>), modelled by its own properties.  An
  assignment \<^verbatim>\<open>params[key] = value\<close> makes or overwrites the own property, except for the
  key \<^verbatim>\<open>__proto__\<close>: that assignment goes to the setter inherited from
  \<^verbatim>\<open>Object.prototype\<close>, which ignores a string and leaves the object without such a
  property.  \<^verbatim>\<open>delete params[key]\<close> removes an own property.
\<close>

type_synonym RouteParams = "string \<rightharpoonup> string"

definition Object_set :: "RouteParams \<Rightarrow> string \<Rightarrow> string \<Rightarrow> RouteParams" where
  "Object_set params key v = (if key = ''__proto__'' then params else params(key \<mapsto> v))"

definition Object_delete :: "RouteParams \<Rightarrow> string \<Rightarrow> RouteParams" where
  "Object_delete params key = params(key := None)"

text \<open>Step 3 of \<^verbatim>\<open>match\<close>: the wildcard child counts only when it has a handler.\<close>

definition match_wildcard :: "'h RouteNode \<Rightarrow> 'h option" where
  "match_wildcard node =
     (case wildcardchild node of None \<Rightarrow> None | Some w \<Rightarrow> handler w)"

text \<open>
  The inner function \<^verbatim>\<open>match\<close> of \<^verbatim>\<open>matchroute\<close>.  It mutates the \<^verbatim>\<open>params\<close> object of
  the enclosing call, so the model passes \<open>params\<close> in and returns it with the result;
  the second argument is \<^verbatim>\<open>segments\<close> from \<open>index\<close> on.
\<close>

fun match :: "'h RouteNode \<Rightarrow> string list \<Rightarrow> RouteParams \<Rightarrow> 'h option \<times> RouteParams" where
  "match node [] params = (handler node, params)"
| "match node (segment # rest) params =
     (case (case map_of (children node) segment of
              None \<Rightarrow> (None, params)
            | Some staticchild \<Rightarrow> match staticchild rest params) of
        (Some result, params1) \<Rightarrow> (Some result, params1)
      | (None, params1) \<Rightarrow>
          (case paramchild node of
             None \<Rightarrow> (match_wildcard node, params1)
           | Some pc \<Rightarrow>
               (case match (snd pc) rest (Object_set params1 (fst pc) segment) of
                  (Some result, params2) \<Rightarrow> (Some result, params2)
                | (None, params2) \<Rightarrow> (match_wildcard node, Object_delete params2 (fst pc)))))"

definition matchroute :: "'h Routes \<Rightarrow> string \<Rightarrow> string \<Rightarrow> ('h \<times> RouteParams) option" where
  "matchroute routes method path =
     (case method_of method of
        None \<Rightarrow> None
      | Some m \<Rightarrow>
          (case match (routes m) (parsepath path) Map.empty of
             (Some h, params) \<Rightarrow> Some (h, params)
           | (None, params) \<Rightarrow> None))"

text \<open>What a caller reads off a match result.\<close>

definition matched_handler :: "('h \<times> RouteParams) option \<Rightarrow> 'h option" where
  "matched_handler r = map_option fst r"

definition matched_param :: "('h \<times> RouteParams) option \<Rightarrow> string \<Rightarrow> string option" where
  "matched_param r name = (case r of None \<Rightarrow> None | Some (h, params) \<Rightarrow> params name)"

text \<open>
  Specification vocabulary for matching.  A way through the trie is a list of choices,
  one per segment consumed.  \<open>follow\<close> takes the choices as given and returns the handler
  reached with the parameter bindings made on the way, if every choice is possible and
  the way ends on a handler.  \<open>earlier\<close> is the order in which the ways are tried: at the
  first difference, static before parameter before wildcard.
\<close>

datatype choice = Static | Param | Wild

fun follow ::
  "'h RouteNode \<Rightarrow> string list \<Rightarrow> choice list \<Rightarrow> ('h \<times> (string \<times> string) list) option" where
  "follow node [] [] = (case handler node of None \<Rightarrow> None | Some h \<Rightarrow> Some (h, []))"
| "follow node (segment # rest) (Static # cs) =
     (case map_of (children node) segment of
        None \<Rightarrow> None
      | Some c \<Rightarrow> follow c rest cs)"
| "follow node (segment # rest) (Param # cs) =
     (case paramchild node of
        None \<Rightarrow> None
      | Some pc \<Rightarrow>
          (case follow (snd pc) rest cs of
             None \<Rightarrow> None
           | Some (h, bs) \<Rightarrow> Some (h, (fst pc, segment) # bs)))"
| "follow node (segment # rest) [Wild] =
     (case match_wildcard node of None \<Rightarrow> None | Some h \<Rightarrow> Some (h, []))"
| "follow node segments cs = None"

fun rank :: "choice \<Rightarrow> nat" where
  "rank Static = 0"
| "rank Param = 1"
| "rank Wild = 2"

fun earlier :: "choice list \<Rightarrow> choice list \<Rightarrow> bool" where
  "earlier (a # as) (b # bs) = (rank a < rank b \<or> (a = b \<and> earlier as bs))"
| "earlier as bs = False"

text \<open>\<open>names_fresh used node\<close>: below \<open>node\<close> no parameter edge carries a name of \<open>used\<close>,
  and no name occurs twice on one way down.\<close>

fun names_fresh :: "string list \<Rightarrow> 'h RouteNode \<Rightarrow> bool" where
  "names_fresh used (RouteNode h cs pc w) =
     (list_all (\<lambda>kc. names_fresh used (snd kc)) cs
      \<and> (case pc of
           None \<Rightarrow> True
         | Some p \<Rightarrow> fst p \<notin> set used \<and> names_fresh (fst p # used) (snd p))
      \<and> (case w of None \<Rightarrow> True | Some wn \<Rightarrow> names_fresh used wn))"

text \<open>
  Specification vocabulary for a set of routes.  Routes are registered one after the
  other, each with its method, path and handler (\<^verbatim>\<open>get\<close>, \<^verbatim>\<open>post\<close>, ..., and \<^verbatim>\<open>all\<close>,
  which registers one route per method).  The pattern of a route is its path parsed the
  way \<^verbatim>\<open>addroute\<close> reads it: a segment that starts with a colon is a parameter with the
  rest of the segment as its name, the segment \<^verbatim>\<open>*\<close> is the wildcard and ends the
  pattern, any other segment is literal.  \<open>table rs m\<close> lists the patterns and handlers of
  the routes of method \<open>m\<close> in the order of registration.
\<close>

datatype pseg = Lit string | Par string | Star

fun pattern_of :: "string list \<Rightarrow> pseg list" where
  "pattern_of [] = []"
| "pattern_of (segment # segments) =
     (if take 1 segment = '':'' then Par (drop 1 segment) # pattern_of segments
      else if segment = ''*'' then [Star]
      else Lit segment # pattern_of segments)"

definition register :: "(HTTPMethod \<times> string \<times> 'h) list \<Rightarrow> 'h Routes" where
  "register rs =
     foldl (\<lambda>routes r. addroute routes (fst r) (fst (snd r)) (snd (snd r))) new_Router rs"

definition table :: "(HTTPMethod \<times> string \<times> 'h) list \<Rightarrow> HTTPMethod \<Rightarrow> (pseg list \<times> 'h) list" where
  "table rs m =
     map (\<lambda>r. (pattern_of (parsepath (fst (snd r))), snd (snd r))) (filter (\<lambda>r. fst r = m) rs)"

text \<open>
  A pattern fits the segments of a request along a way: literal segments are equal,
  a parameter takes any segment, the wildcard takes the rest, which is not empty.
\<close>

fun fits :: "pseg list \<Rightarrow> string list \<Rightarrow> choice list \<Rightarrow> bool" where
  "fits [] [] [] = True"
| "fits (Lit s # pat) (segment # rest) (Static # cs) = (s = segment \<and> fits pat rest cs)"
| "fits (Par n # pat) (segment # rest) (Param # cs) = fits pat rest cs"
| "fits (Star # pat) (segment # rest) [Wild] = True"
| "fits pat segments cs = False"

text \<open>
  What a table of routes answers along a way.  After a literal segment the routes that
  have this literal next remain, after a parameter those that have a parameter next; the
  handler is that of the last route that ends where the way ends (a later registration
  of the same pattern replaces the handler), and a parameter position goes by the name
  that the first of the routes passing through it gave it.
\<close>

fun under_lit :: "string \<Rightarrow> (pseg list \<times> 'h) list \<Rightarrow> (pseg list \<times> 'h) list" where
  "under_lit x [] = []"
| "under_lit x ((Lit s # pat, h) # rts) =
     (if s = x then (pat, h) # under_lit x rts else under_lit x rts)"
| "under_lit x (r # rts) = under_lit x rts"

fun under_par :: "(pseg list \<times> 'h) list \<Rightarrow> (pseg list \<times> 'h) list" where
  "under_par [] = []"
| "under_par ((Par n # pat, h) # rts) = (pat, h) # under_par rts"
| "under_par (r # rts) = under_par rts"

fun par_name :: "(pseg list \<times> 'h) list \<Rightarrow> string option" where
  "par_name [] = None"
| "par_name ((Par n # pat, h) # rts) = Some n"
| "par_name (r # rts) = par_name rts"

fun ends :: "(pseg list \<times> 'h) list \<Rightarrow> 'h option" where
  "ends [] = None"
| "ends (([], h) # rts) = (case ends rts of None \<Rightarrow> Some h | Some h' \<Rightarrow> Some h')"
| "ends (r # rts) = ends rts"

fun star :: "(pseg list \<times> 'h) list \<Rightarrow> 'h option" where
  "star [] = None"
| "star ((Star # pat, h) # rts) = (case star rts of None \<Rightarrow> Some h | Some h' \<Rightarrow> Some h')"
| "star (r # rts) = star rts"

fun lookup ::
  "(pseg list \<times> 'h) list \<Rightarrow> string list \<Rightarrow> choice list
     \<Rightarrow> ('h \<times> (string \<times> string) list) option" where
  "lookup rts [] [] = (case ends rts of None \<Rightarrow> None | Some h \<Rightarrow> Some (h, []))"
| "lookup rts (segment # rest) (Static # cs) = lookup (under_lit segment rts) rest cs"
| "lookup rts (segment # rest) (Param # cs) =
     (case par_name rts of
        None \<Rightarrow> None
      | Some n \<Rightarrow>
          (case lookup (under_par rts) rest cs of
             None \<Rightarrow> None
           | Some (h, bs) \<Rightarrow> Some (h, (n, segment) # bs)))"
| "lookup rts (segment # rest) [Wild] =
     (case star rts of None \<Rightarrow> None | Some h \<Rightarrow> Some (h, []))"
| "lookup rts segments cs = None"

text \<open>The trie that \<^verbatim>\<open>addroute\<close> builds from the routes of one method, and \<^verbatim>\<open>addroute\<close>'s
  walk on a parsed pattern; both serve the proofs.\<close>

fun insert_pattern :: "'h RouteNode \<Rightarrow> pseg list \<Rightarrow> 'h \<Rightarrow> 'h RouteNode" where
  "insert_pattern node [] h =
     RouteNode (Some h) (children node) (paramchild node) (wildcardchild node)"
| "insert_pattern node (Par n # pat) h =
     (let pc = (case paramchild node of None \<Rightarrow> (n, createnode) | Some pc \<Rightarrow> pc)
      in RouteNode (handler node) (children node)
           (Some (fst pc, insert_pattern (snd pc) pat h)) (wildcardchild node))"
| "insert_pattern node (Star # pat) h =
     (let w = (case wildcardchild node of None \<Rightarrow> createnode | Some w \<Rightarrow> w)
      in RouteNode (handler node) (children node) (paramchild node)
           (Some (RouteNode (Some h) (children w) (paramchild w) (wildcardchild w))))"
| "insert_pattern node (Lit s # pat) h =
     (let c = (case map_of (children node) s of None \<Rightarrow> createnode | Some c \<Rightarrow> c)
      in RouteNode (handler node)
           (Map_set s (insert_pattern c pat h) (children node))
           (paramchild node) (wildcardchild node))"

definition trie_of :: "(pseg list \<times> 'h) list \<Rightarrow> 'h RouteNode" where
  "trie_of rts = foldl (\<lambda>node r. insert_pattern node (fst r) (snd r)) createnode rts"

text \<open>Sets of routes used as concrete inputs below.\<close>

definition users_routes :: "(HTTPMethod \<times> string \<times> nat) list" where
  "users_routes =
     [(GET, ''/users/:id/posts/:post'', 1), (GET, ''/users/me/posts/:post'', 2),
      (GET, ''/users/*'', 3)]"

definition clash_routes :: "(HTTPMethod \<times> string \<times> nat) list" where
  "clash_routes = [(GET, ''/:a/x'', 1), (GET, ''/:b/y'', 2)]"

definition repeat_routes :: "(HTTPMethod \<times> string \<times> nat) list" where
  "repeat_routes = [(GET, ''/:id/:id/foo'', 1), (GET, ''/:id/*'', 2)]"

definition proto_routes :: "(HTTPMethod \<times> string \<times> nat) list" where
  "proto_routes = [(GET, ''/:__proto__'', 1)]"

section \<open>Byte pipe (src/http/pipe.ts)\<close>

text \<open>
  Bytes are \<open>char\<close>s, and a JavaScript string is modelled by the bytes of its UTF-8
  encoding, so that \<^verbatim>\<open>TextEncoder.encode\<close> and \<^verbatim>\<open>TextDecoder.decode\<close> are the identity
  (exact for the ASCII text of the protocol).  A thrown value is an instance of
  \<^verbatim>\<open>Error\<close> itself with its message, a failed assertion with its message, an instance of
  a subclass of \<^verbatim>\<open>Error\<close> with the name of the class and its message, or a value that is
  not an \<^verbatim>\<open>Error\<close>, given by its \<^verbatim>\<open>String\<close> rendering.
\<close>

type_synonym byte = char

datatype thrown =
  Error string | AssertionFailed string | ErrorOf string string | NonError string

text \<open>Modelled from the spec: \<^verbatim>\<open>utils/assert.ts\<close> is not among the sources; the spec
  speaks of operations that ``assert'' a condition and fail otherwise.  \<open>assert\<close> returns
  the value thrown, if any.\<close>

definition assert :: "bool \<Rightarrow> string \<Rightarrow> thrown option" where
  "assert cond msg = (if cond then None else Some (AssertionFailed msg))"

text \<open>\<^verbatim>\<open>Number.toString(radix)\<close> on a natural number.\<close>

definition digit_char :: "nat \<Rightarrow> char" where
  "digit_char d = ''0123456789abcdef'' ! d"

function toStringRadix :: "nat \<Rightarrow> nat \<Rightarrow> string" where
  "toStringRadix b n =
     (if n < b \<or> b < 2 then [digit_char n]
      else toStringRadix b (n div b) @ [digit_char (n mod b)])"
  by pat_completeness auto
termination
  by (relation "measure (\<lambda>(b, n). n)") auto

declare toStringRadix.simps [simp del]

text \<open>
  The connection under the pipe.  \<open>incoming\<close> are the pieces in which the peer's bytes
  arrive: a \<^verbatim>\<open>read(buf)\<close> takes from the first piece what fits into \<open>buf\<close> and leaves the
  rest for the next read; with no piece left the read returns \<^verbatim>\<open>null\<close> (EOF).
  \<open>outgoing\<close> collects what was written.
\<close>

record Connection =
  incoming :: "byte list list"
  outgoing :: "byte list"

definition conn_read :: "Connection \<Rightarrow> nat \<Rightarrow> byte list option \<times> Connection" where
  "conn_read c space =
     (case incoming c of
        [] \<Rightarrow> (None, c)
      | piece # pieces \<Rightarrow>
          (Some (take space piece),
           c\<lparr>incoming := (if length piece \<le> space then pieces
                           else drop space piece # pieces)\<rparr>))"

definition conn_write :: "Connection \<Rightarrow> byte list \<Rightarrow> nat \<times> Connection" where
  "conn_write c bytes = (length bytes, c\<lparr>outgoing := outgoing c @ bytes\<rparr>)"

record Pipe =
  buffer :: "byte list"
  bufferStart :: nat
  bufferEnd :: nat
  closed :: bool
  conn :: Connection

definition new_Pipe :: "Connection \<Rightarrow> nat \<Rightarrow> Pipe" where
  "new_Pipe c bufferSize =
     \<lparr>buffer = replicate bufferSize (CHR 0x00), bufferStart = 0, bufferEnd = 0,
      closed = False, conn = c\<rparr>"

definition subarray :: "byte list \<Rightarrow> nat \<Rightarrow> nat \<Rightarrow> byte list" where
  "subarray buf s e = take (e - s) (drop s buf)"

text \<open>\<^verbatim>\<open>buf.copyWithin(0, s, e)\<close> and the write of a read's bytes at an offset.\<close>

definition copyWithin0 :: "byte list \<Rightarrow> nat \<Rightarrow> nat \<Rightarrow> byte list" where
  "copyWithin0 buf s e = subarray buf s e @ drop (e - s) buf"

definition set_at :: "byte list \<Rightarrow> nat \<Rightarrow> byte list \<Rightarrow> byte list" where
  "set_at buf off bytes = take off buf @ bytes @ drop (off + length bytes) buf"

text \<open>\<^verbatim>\<open>fill\<close> (lines 43--65).  The result is the value thrown, or the number of bytes read,
  or \<open>None\<close> for \<^verbatim>\<open>null\<close>.\<close>

definition compact :: "Pipe \<Rightarrow> Pipe" where
  "compact p =
     (if bufferStart p > 0 then
        (let remaining = bufferEnd p - bufferStart p
         in p\<lparr>buffer := (if remaining > 0
                           then copyWithin0 (buffer p) (bufferStart p) (bufferEnd p)
                           else buffer p),
               bufferEnd := remaining, bufferStart := 0\<rparr>)
      else p)"

definition fill :: "Pipe \<Rightarrow> (thrown + nat option) \<times> Pipe" where
  "fill p =
     (if closed p then (Inl (Error ''Pipe is closed''), p)
      else
        (let p1 = compact p in
         case conn_read (conn p1) (length (buffer p1) - bufferEnd p1) of
           (None, c) \<Rightarrow> (Inr None, p1\<lparr>conn := c\<rparr>)
         | (Some bytes, c) \<Rightarrow>
             (Inr (Some (length bytes)),
              p1\<lparr>buffer := set_at (buffer p1) (bufferEnd p1) bytes,
                  bufferEnd := bufferEnd p1 + length bytes, conn := c\<rparr>)))"

text \<open>The search for a line end in the buffer (lines 131--146): the index found and the
  length of the line end, 1 for \<^verbatim>\<open>\n\<close> and 2 for \<^verbatim>\<open>\r\n\<close>.\<close>

function find_newline :: "byte list \<Rightarrow> nat \<Rightarrow> nat \<Rightarrow> (nat \<times> nat) option" where
  "find_newline buf i e =
     (if i < e then
        (if buf ! i = CHR 0x0A then Some (i, 1)
         else if buf ! i = CHR 0x0D \<and> i + 1 < e \<and> buf ! (i + 1) = CHR 0x0A then Some (i, 2)
         else find_newline buf (i + 1) e)
      else None)"
  by pat_completeness auto
termination
  by (relation "measure (\<lambda>(buf, i, e). e - i)") auto

declare find_newline.simps [simp del]

text \<open>Lines 170--175: what is in the buffer is kept as a chunk of the line.\<close>

definition keep_available :: "Pipe \<Rightarrow> byte list list \<Rightarrow> nat \<Rightarrow> Pipe \<times> byte list list \<times> nat" where
  "keep_available p chunks totalLength =
     (let available = bufferEnd p - bufferStart p in
      if available > 0 then
        (p\<lparr>bufferStart := bufferEnd p\<rparr>,
         chunks @ [subarray (buffer p) (bufferStart p) (bufferEnd p)],
         totalLength + available)
      else (p, chunks, totalLength))"

text \<open>
  The loop of \<^verbatim>\<open>readline\<close> (lines 129--198), with its variables \<open>chunks\<close> and
  \<open>totalLength\<close>.  The loop runs as long as reads keep returning without a line end, so
  the function is partial: \<open>None\<close> is a call that never returns.  A returned line is
  \<open>Some\<close> text, and \<open>None\<close> inside the result is \<^verbatim>\<open>null\<close>.  The text is given by the
  bytes of the line, which is what \<^verbatim>\<open>TextDecoder.decode\<close> makes of ASCII bytes; bytes that
  are not UTF-8 and a leading byte order mark, which the decoder replaces or drops, are
  outside what the model shows.
\<close>

partial_function (option) readline_loop ::
  "nat \<Rightarrow> Pipe \<Rightarrow> byte list list \<Rightarrow> nat \<Rightarrow> ((thrown + string option) \<times> Pipe) option" where
  "readline_loop maxLength p chunks totalLength =
     (case find_newline (buffer p) (bufferStart p) (bufferEnd p) of
        Some (newlineIndex, newlineLength) \<Rightarrow>
          Some (Inr (Some (concat (chunks @ [subarray (buffer p) (bufferStart p) newlineIndex]))),
                p\<lparr>bufferStart := newlineIndex + newlineLength\<rparr>)
      | None \<Rightarrow>
          (case keep_available p chunks totalLength of
             (p1, chunks1, totalLength1) \<Rightarrow>
               if totalLength1 \<ge> maxLength then
                 Some (Inl (Error (''Line exceeds maximum length of ''
                              @ toStringRadix 10 maxLength @ '' bytes'')), p1)
               else
                 (case fill p1 of
                    (Inl e, p2) \<Rightarrow> Some (Inl e, p2)
                  | (Inr None, p2) \<Rightarrow>
                      Some (Inr (if totalLength1 = 0 then None else Some (concat chunks1)), p2)
                  | (Inr (Some n), p2) \<Rightarrow> readline_loop maxLength p2 chunks1 totalLength1)))"

declare readline_loop.simps [code]

definition readline :: "Pipe \<Rightarrow> nat \<Rightarrow> ((thrown + string option) \<times> Pipe) option" where
  "readline p maxLength = readline_loop maxLength p [] 0"






text \<open>\<^verbatim>\<open>write\<close> (here \<open>Pipe_write\<close>) and \<^verbatim>\<open>writeLine\<close> (lines 359--374).\<close>

definition Pipe_write :: "Pipe \<Rightarrow> byte list \<Rightarrow> (thrown + nat) \<times> Pipe" where
  "Pipe_write p bytes =
     (if closed p then (Inl (Error ''Pipe is closed''), p)
      else (case conn_write (conn p) bytes of (n, c) \<Rightarrow> (Inr n, p\<lparr>conn := c\<rparr>)))"

definition writeLine :: "Pipe \<Rightarrow> string \<Rightarrow> (thrown + nat) \<times> Pipe" where
  "writeLine p line = Pipe_write p (line @ [CHR 0x0A])"

section \<open>HTTP engine (src/http/client.ts)\<close>

datatype ReadState =
  IDLE | STATUS_LINE | HEADERS | BODY | TRAILER | DONE | ERROR_STATE | UPGRADED

datatype Protocol = HTTP | WEBSOCKET | SSE

definition ROLE_SERVER :: nat where "ROLE_SERVER = 0"
definition ROLE_CLIENT :: nat where "ROLE_CLIENT = 1"

text \<open>A header object maps a name to a string or to an array of strings; its entries are
  kept in the order of \<^verbatim>\<open>Object.entries\<close>.\<close>

datatype HeaderValue = One string | Many "string list"

type_synonym HTTPHeaders = "(string \<times> HeaderValue) list"

datatype ClientEvent =
    Ev_parse | Ev_upgrade | Ev_readDone | Ev_start | Ev_error thrown | Ev_write
  | Ev_response nat string HTTPHeaders

datatype settled = Pending | Resolved | Rejected thrown

record HTTPClient =
  pipe :: Pipe
  role :: nat
  state :: ReadState
  sent :: bool
  protocol :: Protocol
  headers :: "(string \<times> string list) list"
  bodyremaining :: nat
  chunked :: bool
  expecttrailer :: bool
  keepalive :: bool
  ended :: settled
  events :: "ClientEvent list"

definition new_HTTPClient :: "Pipe \<Rightarrow> nat \<Rightarrow> HTTPClient" where
  "new_HTTPClient p r =
     \<lparr>pipe = p, role = r, state = IDLE, sent = False, protocol = HTTP, headers = [],
      bodyremaining = 0, chunked = False, expecttrailer = False, keepalive = True,
      ended = Pending, events = []\<rparr>"

definition emit :: "HTTPClient \<Rightarrow> ClientEvent \<Rightarrow> HTTPClient" where
  "emit c ev = c\<lparr>events := events c @ [ev]\<rparr>"

text \<open>A body argument: absent, a string, or a \<^verbatim>\<open>Uint8Array\<close>.  In a condition a string
  counts as true when it is not empty, an array always, \<^verbatim>\<open>undefined\<close> never.\<close>

datatype Body = NoBody | TextBody string | BytesBody "byte list"

fun truthy :: "Body \<Rightarrow> bool" where
  "truthy NoBody = False"
| "truthy (TextBody s) = (s \<noteq> [])"
| "truthy (BytesBody b) = True"

text \<open>\<^verbatim>\<open>if (typeof body === 'string') body = new TextEncoder().encode(body)\<close>\<close>

fun encode_body :: "Body \<Rightarrow> Body" where
  "encode_body (TextBody s) = BytesBody s"
| "encode_body b = b"


definition lower_char :: "char \<Rightarrow> char" where
  "lower_char c =
     (case map_of (zip ''ABCDEFGHIJKLMNOPQRSTUVWXYZ'' ''abcdefghijklmnopqrstuvwxyz'') c of
        None \<Rightarrow> c | Some l \<Rightarrow> l)"

definition toLowerCase :: "string \<Rightarrow> string" where
  "toLowerCase s = map lower_char s"



text \<open>Sequencing of awaited steps on a state: a step that throws ends the sequence.\<close>

definition and_then ::
  "(thrown + 'a) \<times> 's \<Rightarrow> ('s \<Rightarrow> (thrown + 'b) \<times> 's) \<Rightarrow> (thrown + 'b) \<times> 's" where
  "and_then r f = (case r of (Inl e, s) \<Rightarrow> (Inl e, s) | (Inr a, s) \<Rightarrow> f s)"

definition client_writeLine :: "HTTPClient \<Rightarrow> string \<Rightarrow> (thrown + nat) \<times> HTTPClient" where
  "client_writeLine c line = (case writeLine (pipe c) line of (r, p) \<Rightarrow> (r, c\<lparr>pipe := p\<rparr>))"

definition client_write :: "HTTPClient \<Rightarrow> byte list \<Rightarrow> (thrown + nat) \<times> HTTPClient" where
  "client_write c bytes = (case Pipe_write (pipe c) bytes of (r, p) \<Rightarrow> (r, c\<lparr>pipe := p\<rparr>))"

fun writeLines :: "HTTPClient \<Rightarrow> string list \<Rightarrow> (thrown + nat) \<times> HTTPClient" where
  "writeLines c [] = (Inr 0, c)"
| "writeLines c (l # ls) = and_then (client_writeLine c l) (\<lambda>c. writeLines c ls)"

fun header_values :: "HeaderValue \<Rightarrow> string list" where
  "header_values (One v) = [v]"
| "header_values (Many vs) = vs"

definition header_lines :: "(string \<times> string list) list \<Rightarrow> string list" where
  "header_lines hs = concat (map (\<lambda>kv. map (\<lambda>v. fst kv @ '': '' @ v) (snd kv)) hs)"

text \<open>\<^verbatim>\<open>writeHeaders\<close> (lines 518--546).\<close>

definition normalize_headers :: "HTTPHeaders \<Rightarrow> (string \<times> string list) list" where
  "normalize_headers hs =
     foldl (\<lambda>normalized kv. Map_set (toLowerCase (fst kv)) (header_values (snd kv)) normalized)
       [] hs"

definition body_length_text :: "Body \<Rightarrow> string" where
  "body_length_text body =
     (case body of BytesBody b \<Rightarrow> toStringRadix 10 (length b)
      | TextBody s \<Rightarrow> toStringRadix 10 (length s)
      | NoBody \<Rightarrow> ''0'')"

definition writeHeaders :: "HTTPClient \<Rightarrow> HTTPHeaders \<Rightarrow> Body \<Rightarrow> (thrown + nat) \<times> HTTPClient" where
  "writeHeaders c hs body =
     (let normalized = normalize_headers hs;
          normalized =
            (if protocol c = HTTP \<and> map_of normalized ''content-length'' = None
                 \<and> map_of normalized ''transfer-encoding'' = None
             then Map_set ''content-length'' [body_length_text body] normalized
             else normalized)
      in and_then (writeLines c (header_lines normalized)) (\<lambda>c. client_writeLine c []))"

text \<open>\<^verbatim>\<open>writeResponse\<close> (lines 488--513).\<close>

definition writeResponse ::
  "HTTPClient \<Rightarrow> nat \<Rightarrow> string \<Rightarrow> HTTPHeaders \<Rightarrow> Body \<Rightarrow> (thrown + unit) \<times> HTTPClient" where
  "writeResponse c code msg hs body =
     (case assert (role c = ROLE_SERVER) ''Only servers can write responses'' of
        Some e \<Rightarrow> (Inl e, c)
      | None \<Rightarrow>
     (case assert (\<not> sent c) ''Cannot write response: response already sent'' of
        Some e \<Rightarrow> (Inl e, c)
      | None \<Rightarrow>
     (case assert (code \<noteq> 204 \<or> truthy body) ''204 response must not have a body'' of
        Some e \<Rightarrow> (Inl e, c)
      | None \<Rightarrow>
          (let c = emit (c\<lparr>sent := True\<rparr>) (Ev_response code msg hs);
               body = encode_body body
           in and_then
                (client_writeLine c (''HTTP/1.1 '' @ toStringRadix 10 code @ '' '' @ msg))
                (\<lambda>c. and_then (writeHeaders (emit c Ev_write) hs body)
                   (\<lambda>c. let c = emit c Ev_write in
                      (case body of
                         BytesBody b \<Rightarrow>
                           and_then (client_write c b) (\<lambda>c. (Inr (), emit c Ev_write))
                       | _ \<Rightarrow> (Inr (), c))))))))"




text \<open>A server-side engine on a fresh connection, used as a concrete input below.\<close>

definition fresh_server :: HTTPClient where
  "fresh_server = new_HTTPClient (new_Pipe \<lparr>incoming = [], outgoing = []\<rparr> 4096) ROLE_SERVER"

section \<open>App lifecycle (core/app.ts, here src/unnamed/part\_001)\<close>

datatype AppState = UNINITIALIZED | INITIALIZED | STOPPED | RUNNING | STOPPING

text \<open>\<^verbatim>\<open>getError\<close> (\<^verbatim>\<open>e instanceof Error ? e.message : String(e)\<close>) and \<^verbatim>\<open>String(e)\<close> of a
  thrown value; for an error that is \<^verbatim>\<open>Error.prototype.toString\<close>: the name, a colon
  and the message, or only one of them when the other is empty.\<close>

fun getError :: "thrown \<Rightarrow> string" where
  "getError (Error m) = m"
| "getError (AssertionFailed m) = m"
| "getError (ErrorOf n m) = m"
| "getError (NonError s) = s"



fun AppState_name :: "AppState \<Rightarrow> string" where
  "AppState_name UNINITIALIZED = ''UNINITIALIZED''"
| "AppState_name INITIALIZED = ''INITIALIZED''"
| "AppState_name STOPPED = ''STOPPED''"
| "AppState_name RUNNING = ''RUNNING''"
| "AppState_name STOPPING = ''STOPPING''"

text \<open>
  The app object.  The stop promises made by \<^verbatim>\<open>createStopPromise\<close> live in
  \<open>stopPromises\<close>, one flag each telling whether it has been resolved; \<open>stopPromise\<close>
  is the index of the current one.  Times are milliseconds.  The module (\<^verbatim>\<open>$mod\<close>, here
  \<open>appModule\<close>) and the info are opaque.
\<close>

record ('m, 'i) App =
  name :: string
  appModule :: "'m option"
  currentInfo :: "'i option"
  appState :: AppState
  stopPromise :: nat
  stopPromises :: "bool list"
  startTime :: "int option"
  stopTime :: "int option"
  restartCount :: nat
  lastError :: "string option"
  uptime :: int

definition new_App :: "string \<Rightarrow> ('m, 'i) App" where
  "new_App n =
     \<lparr>name = n, appModule = None, currentInfo = None, appState = UNINITIALIZED,
      stopPromise = 0, stopPromises = [False], startTime = None, stopTime = None,
      restartCount = 0, lastError = None, uptime = 0\<rparr>"

definition resetStopPromise :: "('m, 'i) App \<Rightarrow> ('m, 'i) App" where
  "resetStopPromise app =
     app\<lparr>stopPromise := length (stopPromises app),
         stopPromises := stopPromises app @ [False]\<rparr>"

definition resolveStopPromise :: "('m, 'i) App \<Rightarrow> ('m, 'i) App" where
  "resolveStopPromise app =
     app\<lparr>stopPromises := (stopPromises app) [stopPromise app := True]\<rparr>"

text \<open>
  What user code does is an input of the model.  A hook of the module (\<^verbatim>\<open>init\<close>,
  \<^verbatim>\<open>stop\<close>) returns, throws, or never settles.  The user's \<^verbatim>\<open>run()\<close> is raced against
  the one-second timer: it throws at the call, or its promise rejects or resolves before
  the timer fires, or the timer fires first; in the last case the promise may still
  reject later (\<open>Some e\<close>) or not (\<open>None\<close>).  A lifecycle operation returns, throws or
  never returns.
\<close>

datatype hook = Returns | Throws thrown | Hangs

datatype run_outcome =
  RunThrows thrown | RunRejectsFirst thrown | RunResolvesFirst | TimerFirst "thrown option"

datatype op_result = Done | Raised thrown | NeverReturns

text \<open>\<^verbatim>\<open>run()\<close> (lines 152--178); \<open>now\<close> is \<^verbatim>\<open>Date.now()\<close>.\<close>

definition run :: "('m, 'i) App \<Rightarrow> int \<Rightarrow> run_outcome \<Rightarrow> op_result \<times> ('m, 'i) App" where
  "run app now outcome =
     (if appState app = RUNNING then (Done, app)
      else
     (case assert (appModule app \<noteq> None) ''App module not initialized'' of
        Some e \<Rightarrow> (Raised e, app)
      | None \<Rightarrow>
     (case assert (currentInfo app \<noteq> None) ''App info not initialized'' of
        Some e \<Rightarrow> (Raised e, app)
      | None \<Rightarrow>
     (if appState app \<noteq> INITIALIZED \<and> appState app \<noteq> STOPPED then
        (Raised (Error (''Cannot run app in state: '' @ AppState_name (appState app))), app)
      else
        (let app = (resetStopPromise (app\<lparr>appState := RUNNING\<rparr>))\<lparr>startTime := Some now\<rparr>;
             caught = (\<lambda>err. (Raised err,
                          app\<lparr>lastError := Some (getError err), appState := STOPPED\<rparr>))
         in case outcome of
              RunThrows err \<Rightarrow> caught err
            | RunRejectsFirst err \<Rightarrow> caught err
            | RunResolvesFirst \<Rightarrow> (Done, app)
            | TimerFirst later \<Rightarrow> (Done, app))))))"

text \<open>\<^verbatim>\<open>stop()\<close> (lines 180--201); \<open>stopped\<close> is what the module's \<^verbatim>\<open>stop()\<close> does.\<close>

definition stop :: "('m, 'i) App \<Rightarrow> int \<Rightarrow> hook \<Rightarrow> op_result \<times> ('m, 'i) App" where
  "stop app now stopped =
     (if appState app = STOPPED \<or> appState app = UNINITIALIZED then (Done, app)
      else if appState app = RUNNING \<and> appModule app \<noteq> None then
        (let app = resolveStopPromise (app\<lparr>appState := STOPPING\<rparr>) in
         case stopped of
           Hangs \<Rightarrow> (NeverReturns, app)
         | Throws err \<Rightarrow>
             (Raised err, app\<lparr>lastError := Some (getError err), appState := STOPPED\<rparr>)
         | Returns \<Rightarrow>
             (let app = app\<lparr>stopTime := Some now\<rparr>;
                  app = (case startTime app of
                           None \<Rightarrow> app
                         | Some t \<Rightarrow> if t = 0 then app
                                     else app\<lparr>uptime := uptime app + (now - t)\<rparr>)
              in (Done, app\<lparr>appState := STOPPED\<rparr>)))
      else (Done, app))"

text \<open>\<^verbatim>\<open>restart()\<close> (lines 203--208).\<close>

definition restart ::
  "('m, 'i) App \<Rightarrow> int \<Rightarrow> hook \<Rightarrow> int \<Rightarrow> run_outcome \<Rightarrow> op_result \<times> ('m, 'i) App" where
  "restart app now stopped now' outcome =
     (case stop app now stopped of
        (Done, app) \<Rightarrow>
          run (resetStopPromise (app\<lparr>restartCount := restartCount app + 1\<rparr>)) now' outcome
      | (r, app) \<Rightarrow> (r, app))"

text \<open>\<^verbatim>\<open>uninstall()\<close> (lines 96--110).\<close>

definition uninstall :: "('m, 'i) App \<Rightarrow> int \<Rightarrow> hook \<Rightarrow> op_result \<times> ('m, 'i) App" where
  "uninstall app now stopped =
     (if appModule app \<noteq> None then
        (case (if appState app = RUNNING then stop app now stopped else (Done, app)) of
           (Done, app) \<Rightarrow>
             (Done, app\<lparr>appModule := None, currentInfo := None, appState := UNINITIALIZED\<rparr>)
         | (Raised err, app) \<Rightarrow> (Raised err, app\<lparr>lastError := Some (getError err)\<rparr>)
         | (NeverReturns, app) \<Rightarrow> (NeverReturns, app))
      else (Done, app))"

text \<open>
  \<^verbatim>\<open>init(curInfo)\<close> (lines 112--150).  The route handler calls it with \<^verbatim>\<open>app.info!\<close>,
  which may be \<^verbatim>\<open>undefined\<close>, so \<open>curInfo\<close> is an option; reading \<^verbatim>\<open>curInfo.timestamp\<close>
  in the first \<^verbatim>\<open>try\<close> block then throws \<open>missing\<close>.  \<open>imported\<close> is the outcome of the
  import and of the check of the default export, \<open>constructed\<close> that of
  \<^verbatim>\<open>new module.default(...)\<close>, \<open>inited\<close> that of the module's \<^verbatim>\<open>init()\<close>.
\<close>

definition init_failed :: "string \<Rightarrow> thrown \<Rightarrow> ('m, 'i) App \<Rightarrow> op_result \<times> ('m, 'i) App" where
  "init_failed what e app =
     (let err = what @ name app @ '': '' @ getError e
      in (Raised (Error err), app\<lparr>lastError := Some err\<rparr>))"

definition init ::
  "('m, 'i) App \<Rightarrow> 'i option \<Rightarrow> int \<Rightarrow> hook \<Rightarrow> thrown \<Rightarrow> thrown option \<Rightarrow> thrown + 'm \<Rightarrow> hook
     \<Rightarrow> op_result \<times> ('m, 'i) App" where
  "init app curInfo now stopped missing imported constructed inited =
     (if appState app = RUNNING then (Raised (Error ''Cannot initialize while running''), app)
      else
        (case uninstall app now stopped of
           (Done, app) \<Rightarrow>
             (case (case curInfo of None \<Rightarrow> Some missing | Some info \<Rightarrow> imported) of
                Some e \<Rightarrow> init_failed ''Failed to load app module '' e app
              | None \<Rightarrow>
                  (let app = app\<lparr>currentInfo := curInfo\<rparr>;
                       failed = (\<lambda>e app.
                         (case init_failed ''Failed to initialize app '' e app of
                            (r, app) \<Rightarrow> (r, app\<lparr>appModule := None, currentInfo := None\<rparr>)))
                   in case constructed of
                        Inl e \<Rightarrow> failed e app
                      | Inr m \<Rightarrow>
                          (let app = app\<lparr>appModule := Some m\<rparr> in
                           case inited of
                             Throws e \<Rightarrow> failed e app
                           | Hangs \<Rightarrow> (NeverReturns, app)
                           | Returns \<Rightarrow>
                               (Done, resetStopPromise (app\<lparr>appState := INITIALIZED\<rparr>)))))
         | (r, app) \<Rightarrow> (r, app)))"

text \<open>
  The wrapper handed to user code (\<^verbatim>\<open>createWrapper\<close>, lines 72--89).  A call races its
  argument against \<^verbatim>\<open>this.$stopPromise.promise.then(() => { throw ... })\<close>, with the stop
  promise that is current when the call is made.  The callback given to \<^verbatim>\<open>then\<close> runs as
  a job of its own after the stop promise has been resolved, and only then is the derived
  promise rejected; the reaction to an argument that is settled by then is queued before
  that rejection and wins the race.  A call is waiting on a stop promise, or has resolved,
  or has rejected.  The \<^verbatim>\<open>catch\<close> block looks at the app's state when it runs.
\<close>

datatype 'a wrapped = Waiting nat | Fulfilled 'a | Failed thrown

definition wrapper_catch :: "('m, 'i) App \<Rightarrow> thrown \<Rightarrow> 'a wrapped" where
  "wrapper_catch app err =
     Failed (if appState app = STOPPING \<or> appState app = STOPPED
             then Error ''App stopped'' else err)"

text \<open>The call itself; \<open>v\<close> tells whether the argument is settled at the call (a plain
  value is a promise resolved with it; a thenable that is not a native promise is adopted
  by a job of its own and is pending at the call).  A settled argument wins the race,
  whatever the stop promise; with a pending one the call waits, also on a stop promise
  that has been resolved already, until the callback of that promise has run.\<close>

definition wrapper :: "('m, 'i) App \<Rightarrow> (thrown + 'a) option \<Rightarrow> 'a wrapped" where
  "wrapper app v =
     (case v of
        Some (Inr x) \<Rightarrow> Fulfilled x
      | Some (Inl err) \<Rightarrow> wrapper_catch app err
      | None \<Rightarrow> Waiting (stopPromise app))"

text \<open>The argument of a waiting call settles.\<close>

definition settles :: "('m, 'i) App \<Rightarrow> 'a wrapped \<Rightarrow> thrown + 'a \<Rightarrow> 'a wrapped" where
  "settles app w r =
     (case w of
        Waiting t \<Rightarrow> (case r of Inr x \<Rightarrow> Fulfilled x | Inl err \<Rightarrow> wrapper_catch app err)
      | _ \<Rightarrow> w)"

text \<open>The callbacks of the resolved stop promises have run and the races have seen the
  rejections: a call still waiting on a resolved stop promise rejects.\<close>

definition stop_reactions :: "('m, 'i) App \<Rightarrow> 'a wrapped \<Rightarrow> 'a wrapped" where
  "stop_reactions app w =
     (case w of
        Waiting t \<Rightarrow>
          if t < length (stopPromises app) \<and> stopPromises app ! t
          then wrapper_catch app (Error ''App stopped'') else w
      | _ \<Rightarrow> w)"

text \<open>
  A call that is waiting while \<^verbatim>\<open>stop()\<close> runs.  \<^verbatim>\<open>stop()\<close> sets STOPPING, resolves the
  stop promise and calls the module's \<^verbatim>\<open>stop()\<close> in one job (lines 187--189); the
  callbacks of the stop promise run after that job.  \<open>during\<close> is what has become of the
  argument of the call by then: \<open>None\<close> if it is still pending, and otherwise how it was
  settled, by the module's \<^verbatim>\<open>stop()\<close> before it returned or by other code of that job.
\<close>

definition stop_call ::
  "('m, 'i) App \<Rightarrow> int \<Rightarrow> hook \<Rightarrow> (thrown + 'a) option \<Rightarrow> 'a wrapped \<Rightarrow> 'a wrapped" where
  "stop_call app now stopped during w =
     (let app' = snd (stop app now stopped);
          w' = (case during of None \<Rightarrow> w | Some r \<Rightarrow> settles app' w r)
      in stop_reactions app' w')"

text \<open>The lifecycle operations, each with the inputs it takes from its surroundings, and
  a sequence of them performed one after the other.\<close>

datatype ('m, 'i) Lifecycle =
    Init "'i option" int hook thrown "thrown option" "thrown + 'm" hook
  | Run int run_outcome
  | Stop int hook
  | Restart int hook int run_outcome
  | Uninstall int hook

fun perform :: "('m, 'i) App \<Rightarrow> ('m, 'i) Lifecycle \<Rightarrow> ('m, 'i) App" where
  "perform app (Init curInfo now stopped missing imported constructed inited) =
     snd (init app curInfo now stopped missing imported constructed inited)"
| "perform app (Run now outcome) = snd (run app now outcome)"
| "perform app (Stop now stopped) = snd (stop app now stopped)"
| "perform app (Restart now stopped now' outcome) = snd (restart app now stopped now' outcome)"
| "perform app (Uninstall now stopped) = snd (uninstall app now stopped)"

definition performs :: "('m, 'i) App \<Rightarrow> ('m, 'i) Lifecycle list \<Rightarrow> ('m, 'i) App" where
  "performs app ops = foldl perform app ops"

text \<open>An app taken through its life, used as concrete input below: initialised, started
  (the user's \<^verbatim>\<open>run()\<close> keeps running), and stopped.\<close>

definition ready_app :: "(unit, unit) App" where
  "ready_app =
     snd (init (new_App ''T'') (Some ()) 0 Returns (Error ''no info'') None (Inr ()) Returns)"

definition running_app :: "(unit, unit) App" where
  "running_app = snd (run ready_app 10 (TimerFirst None))"

definition stopped_app :: "(unit, unit) App" where
  "stopped_app = snd (stop running_app 20 Returns)"

section \<open>Control route (route/api.ts, here the second part of src/main.ts)\<close>

text \<open>The JSON values the handlers send, and what a handler leaves behind: a reply with
  a status and a JSON body, no reply at all, or a rejection passed on to the router.\<close>

datatype json = JString' string | JBool bool | JObject "(string \<times> json) list"


text \<open>The inputs a lifecycle call takes from its surroundings: the clock, what the module's
  hooks do, and how loading the module goes.  \<open>infoMissing\<close> is what reading
  \<^verbatim>\<open>curInfo.timestamp\<close> throws when \<^verbatim>\<open>app.info\<close> is \<^verbatim>\<open>undefined\<close>.\<close>

record 'm Surroundings =
  clock :: int
  stopHook :: hook
  userRun :: run_outcome
  importOutcome :: "thrown option"
  constructOutcome :: "thrown + 'm"
  initHook :: hook
  infoMissing :: thrown

text \<open>The \<^verbatim>\<open>switch (state)\<close> of the handler (lines 115--134 of the route file): the
  lifecycle call for a known command, \<open>None\<close> for the default case.\<close>

definition control_switch ::
  "('m, 'i) App \<Rightarrow> string \<Rightarrow> 'm Surroundings \<Rightarrow> (op_result \<times> ('m, 'i) App) option" where
  "control_switch app cmd s =
     (if cmd = ''START'' then Some (run app (clock s) (userRun s))
      else if cmd = ''STOP'' then Some (stop app (clock s) (stopHook s))
      else if cmd = ''RESTART'' then
        Some (restart app (clock s) (stopHook s) (clock s) (userRun s))
      else if cmd = ''RELOAD'' then
        Some (init app (currentInfo app) (clock s) (stopHook s) (infoMissing s)
                (importOutcome s) (constructOutcome s) (initHook s))
      else None)"




section \<open>HTTP engine: reading a chunked body (src/http/client.ts)\<close>














text \<open>\<^verbatim>\<open>readBody\<close> (lines 400--423); \<open>caught\<close> is its \<^verbatim>\<open>catch\<close> block.\<close>

definition settle :: "settled \<Rightarrow> settled \<Rightarrow> settled" where
  "settle now outcome = (if now = Pending then outcome else now)"

definition caught ::
  "((thrown + 'a) \<times> HTTPClient) option \<Rightarrow> ((thrown + 'a) \<times> HTTPClient) option" where
  "caught r =
     (case r of
        Some (Inl e, c) \<Rightarrow>
          Some (Inl e, (emit (c\<lparr>state := ERROR_STATE\<rparr>) (Ev_error e))
                         \<lparr>ended := settle (ended c) (Rejected e)\<rparr>)
      | _ \<Rightarrow> r)"








definition wire_chunk :: "byte list \<Rightarrow> byte list" where
  "wire_chunk d = toStringRadix 16 (length d) @ [CHR 0x0A] @ d @ [CHR 0x0A]"

definition wire_lines :: "string list \<Rightarrow> byte list" where
  "wire_lines ls = concat (map (\<lambda>l. l @ [CHR 0x0A]) ls)"

definition trailer_fields :: "HTTPHeaders option \<Rightarrow> (string \<times> string) list" where
  "trailer_fields trailers =
     (case trailers of
        None \<Rightarrow> []
      | Some ts \<Rightarrow> concat (map (\<lambda>kv. map (\<lambda>v. (fst kv, v)) (header_values (snd kv))) ts))"

definition wire :: "byte list list \<Rightarrow> HTTPHeaders option \<Rightarrow> byte list" where
  "wire ds trailers =
     concat (map wire_chunk ds) @ ''0'' @ [CHR 0x0A]
       @ wire_lines (map (\<lambda>kv. fst kv @ '': '' @ snd kv) (trailer_fields trailers))
       @ [CHR 0x0A]"



section \<open>The byte stream behind a pipe\<close>



definition pipe_ok :: "Pipe \<Rightarrow> bool" where
  "pipe_ok p =
     (bufferStart p \<le> bufferEnd p \<and> bufferEnd p \<le> length (buffer p)
      \<and> 0 < length (buffer p) \<and> \<not> closed p)"




section \<open>Concrete chunked transfers\<close>




definition blank_trailers :: "HTTPHeaders option" where
  "blank_trailers = Some [(''X'', One '' a'')]"


section \<open>Theorems: log console\<close>

lemma printer_plain_queue:
  "logQueue (printer B c (plain (lvl, args, w, u))) =
     (if maxLogQueueLength c \<le> length (logQueue c) then tl (logQueue c) else logQueue c)
       @ [msg_of B (lvl, args, w, u)]"
  by (simp add: plain_def msg_of_def shift_def Let_def split: list.splits)

lemma printer_plain_emitted:
  "emitted (printer B c (plain (lvl, args, w, u))) =
     emitted c @
     (if maxLogQueueLength c \<le> length (logQueue c)
      then [Ev_overflow (case logQueue c of [] \<Rightarrow> None | m # _ \<Rightarrow> Some m)] else [])
       @ [Ev_log (msg_of B (lvl, args, w, u))]"
  by (simp add: plain_def msg_of_def shift_def Let_def split: list.splits)

lemma foldl_apply_op_max:
  "(\<And>x c. x \<in> set ops \<Longrightarrow> maxLogQueueLength (apply_op B c x) = maxLogQueueLength c)
     \<Longrightarrow> maxLogQueueLength (foldl (apply_op B) c ops) = maxLogQueueLength c"
  by (induction ops arbitrary: c) simp_all

lemma printer_apply_op_max:
  "maxLogQueueLength (printer B c call) = maxLogQueueLength c"
  "maxLogQueueLength (apply_op B c op) = maxLogQueueLength c"
proof (induction call and op arbitrary: c and c)
  case (PrinterCall lvl args w u reentered throws)
  let ?c1 = "if maxLogQueueLength c \<le> length (logQueue c)
             then (case shift (logQueue c) of
                     (m, q) \<Rightarrow> c\<lparr>logQueue := q, emitted := emitted c @ [Ev_overflow m]\<rparr>)
             else c"
  have 1: "maxLogQueueLength ?c1 = maxLogQueueLength c"
    by (simp add: shift_def split: list.splits)
  have "maxLogQueueLength (foldl (apply_op B) ?c1 reentered) = maxLogQueueLength ?c1"
    by (rule foldl_apply_op_max) (rule PrinterCall.IH)
  then show ?case using 1 by (simp add: Let_def)
next
  case (Op_print call)
  then show ?case by simp
next
  case Op_clear
  show ?case by (simp add: clear_def)
qed

lemma printer_max: "maxLogQueueLength (printer B c call) = maxLogQueueLength c"
  by (rule printer_apply_op_max)

lemma prints_snoc: "prints B c (calls @ [call]) = printer B (prints B c calls) call"
  by (simp add: prints_def)

lemma prints_max: "maxLogQueueLength (prints B c calls) = maxLogQueueLength c"
  by (induction calls rule: rev_induct) (simp_all add: prints_snoc printer_max, simp add: prints_def)

lemma trace_at_snoc: "i < length ms \<Longrightarrow> trace_at N (ms @ [m]) i = trace_at N ms i"
  by (simp add: trace_at_def nth_append)

text \<open>A run of plain calls on an empty queue of capacity \<open>N > 0\<close>: the queue is the last
  \<open>N\<close> messages, and call \<open>i\<close> emits the overflow of message \<open>i - N\<close> (when there is one)
  and then the log of message \<open>i\<close>.\<close>

lemma prints_from_empty:
  fixes B :: "'a builtins"
  assumes "0 < N"
  shows "logQueue (prints B \<lparr>logQueue = [], maxLogQueueLength = N, emitted = []\<rparr> (map plain ps))
           = drop (length ps - N) (map (msg_of B) ps)
       \<and> emitted (prints B \<lparr>logQueue = [], maxLogQueueLength = N, emitted = []\<rparr> (map plain ps))
           = concat (map (trace_at N (map (msg_of B) ps)) [0..<length ps])"
proof (induction ps rule: rev_induct)
  case Nil
  show ?case by (simp add: prints_def)
next
  case (snoc p ps)
  obtain lvl args w u where p: "p = (lvl, args, w, u)" by (cases p) auto
  let ?init = "\<lparr>logQueue = [], maxLogQueueLength = N, emitted = []\<rparr> :: 'a Console"
  let ?cur = "prints B ?init (map plain ps)"
  let ?ms = "map (msg_of B) ps"
  let ?n = "length ps"
  have q: "logQueue ?cur = drop (?n - N) ?ms"
    and e: "emitted ?cur = concat (map (trace_at N ?ms) [0..<?n])"
    using snoc.IH by simp_all
  have mx: "maxLogQueueLength ?cur = N" by (simp add: prints_max)
  have step: "prints B ?init (map plain (ps @ [p])) = printer B ?cur (plain (lvl, args, w, u))"
    by (simp add: p prints_snoc)
  have msg: "msg_of B (lvl, args, w, u) = msg_of B p" by (simp add: p)
  have len: "length (logQueue ?cur) = min ?n N" using q by (simp add: min_def)
  have full: "N \<le> length (logQueue ?cur) \<longleftrightarrow> N \<le> ?n" using len by auto
  have q': "logQueue (prints B ?init (map plain (ps @ [p])))
      = drop (Suc ?n - N) (?ms @ [msg_of B p])"
  proof (cases "N \<le> ?n")
    case True
    then have "tl (drop (?n - N) ?ms) = drop (Suc ?n - N) ?ms"
      by (simp add: drop_Suc Suc_diff_le tl_drop)
    then show ?thesis using True assms
      by (simp only: step) (simp add: msg printer_plain_queue mx full q Suc_diff_le)
  next
    case False
    then show ?thesis by (simp only: step) (simp add: msg printer_plain_queue mx full q)
  qed
  have hd: "N \<le> ?n \<Longrightarrow>
      (case logQueue ?cur of [] \<Rightarrow> None | m # _ \<Rightarrow> Some m) = Some (?ms ! (?n - N))"
  proof -
    assume a: "N \<le> ?n"
    then have "?n - N < length ?ms" using assms by simp
    then have "drop (?n - N) ?ms = ?ms ! (?n - N) # drop (Suc (?n - N)) ?ms"
      by (rule Cons_nth_drop_Suc [symmetric])
    then show ?thesis by (simp add: q)
  qed
  have old: "map (trace_at N (?ms @ [msg_of B p])) [0..<?n] = map (trace_at N ?ms) [0..<?n]"
    by (rule map_cong) (simp_all add: trace_at_snoc)
  have last: "trace_at N (?ms @ [msg_of B p]) ?n =
     (if N \<le> ?n then [Ev_overflow (Some (?ms ! (?n - N)))] else []) @ [Ev_log (msg_of B p)]"
    using assms by (simp add: trace_at_def nth_append)
  have e': "emitted (prints B ?init (map plain (ps @ [p])))
      = concat (map (trace_at N (?ms @ [msg_of B p])) [0..<Suc ?n])"
    using hd by (simp only: step) (simp add: msg printer_plain_emitted mx full e old last)
  show ?case using q' e' by simp
qed

lemma overflowed_append: "overflowed (es @ fs) = overflowed es @ overflowed fs"
  by (induction es rule: overflowed.induct) simp_all

lemma overflowed_trace_at:
  "overflowed (trace_at N ms n) = (if N \<le> n then [ms ! (n - N)] else [])"
  by (simp add: trace_at_def)

lemma overflowed_trace:
  "n \<le> length ms \<Longrightarrow> overflowed (concat (map (trace_at N ms) [0..<n])) = take (n - N) ms"
proof (induction n)
  case 0
  show ?case by simp
next
  case (Suc n)
  have IH: "overflowed (concat (map (trace_at N ms) [0..<n])) = take (n - N) ms"
    using Suc by simp
  show ?case
  proof (cases "N \<le> n")
    case True
    have lt: "n - N < length ms" using Suc.prems by simp
    have "take (Suc n - N) ms = take (n - N) ms @ [ms ! (n - N)]"
      using True lt by (simp add: Suc_diff_le take_Suc_conv_app_nth)
    then show ?thesis using True by (simp add: overflowed_append IH overflowed_trace_at)
  next
    case False
    then show ?thesis by (simp add: overflowed_append IH overflowed_trace_at)
  qed
qed

text \<open>
  Where the bound holds.  On the console as constructed (empty queue, capacity 20) every
  run of plain calls leaves the last 20 messages in the queue; the events emitted are,
  call by call, the overflow of the message pushed 20 calls earlier (from the 21st call
  on) followed by the log of the new message; and the messages carried by overflow events
  are exactly the evicted ones, each once and in order.
\<close>

lemma prints_plain_bounded:
  fixes B :: "'a builtins"
  shows "length (logQueue (prints B new_Console (map plain ps))) \<le> 20
       \<and> maxLogQueueLength (prints B new_Console (map plain ps)) = 20
       \<and> logQueue (prints B new_Console (map plain ps)) = drop (length ps - 20) (map (msg_of B) ps)
       \<and> emitted (prints B new_Console (map plain ps))
           = concat (map (trace_at 20 (map (msg_of B) ps)) [0..<length ps])
       \<and> overflowed (emitted (prints B new_Console (map plain ps)))
           = take (length ps - 20) (map (msg_of B) ps)"
proof -
  have run: "logQueue (prints B new_Console (map plain ps))
       = drop (length ps - 20) (map (msg_of B) ps)"
    "emitted (prints B new_Console (map plain ps))
       = concat (map (trace_at 20 (map (msg_of B) ps)) [0..<length ps])"
    using prints_from_empty [of 20 B ps] by (simp_all add: new_Console_def)
  have mx: "maxLogQueueLength (prints B new_Console (map plain ps)) = 20"
    by (simp add: prints_max new_Console_def)
  have ov: "overflowed (emitted (prints B new_Console (map plain ps)))
      = take (length ps - 20) (map (msg_of B) ps)"
    using overflowed_trace [of "length ps" "map (msg_of B) ps" 20] by (simp add: run(2))
  have "length (logQueue (prints B new_Console (map plain ps))) \<le> 20" by (simp add: run(1))
  then show ?thesis using run mx ov by simp
qed

lemma full_console_eq:
  "logQueue (full_console B) = replicate 20 (msg_of B (LOG, [JString ''line''], False, ''id''))"
  "maxLogQueueLength (full_console B) = 20"
proof -
  let ?ps = "map (\<lambda>i. (LOG, [JString ''line''], False, ''id'')) [0..<20]
               :: (Level \<times> 'a jsval list \<times> bool \<times> string) list"
  have f: "full_console B = prints B new_Console (map plain ?ps)"
    by (simp only: full_console_def map_map comp_def)
  have "map (msg_of B) ?ps = replicate 20 (msg_of B (LOG, [JString ''line''], False, ''id''))"
    by (simp only: map_map comp_def map_replicate_const) simp
  then show "logQueue (full_console B)
      = replicate 20 (msg_of B (LOG, [JString ''line''], False, ''id''))"
    using prints_plain_bounded [of B ?ps] by (simp only: f) simp
  show "maxLogQueueLength (full_console B) = 20"
    using prints_plain_bounded [of B ?ps] by (simp only: f)
qed

lemma printer_plain_length:
  "0 < maxLogQueueLength c \<Longrightarrow> maxLogQueueLength c \<le> length (logQueue c) \<Longrightarrow>
     length (logQueue (printer B c (plain p))) = length (logQueue c)"
  by (cases p) (simp add: printer_plain_queue)

lemma prints_plain_length:
  "0 < maxLogQueueLength c \<Longrightarrow> maxLogQueueLength c \<le> length (logQueue c) \<Longrightarrow>
     length (logQueue (prints B c (map plain ps))) = length (logQueue c)"
proof (induction ps rule: rev_induct)
  case Nil
  show ?case by (simp add: prints_def)
next
  case (snoc p ps)
  have "length (logQueue (printer B (prints B c (map plain ps)) (plain p)))
      = length (logQueue (prints B c (map plain ps)))"
    using snoc by (intro printer_plain_length) (simp_all add: prints_max)
  then show ?case using snoc by (simp add: prints_snoc)
qed

text \<open>
  Claim C3 (the code differs).  The printer evicts before it formats, and formatting runs
  the conversions of the arguments.  On a console that holds 20 messages, a call whose
  argument logs one line while it is converted evicts one message, lets the inner call
  push without an eviction (the queue holds 19), and pushes its own message onto the full
  queue: 21 messages, with one overflow event and both log events emitted.  Every plain
  call after that evicts one message and pushes one, so the queue stays at 21.
\<close>

theorem printer_reentered_exceeds:
  "length (logQueue (full_console B)) = 20
   \<and> maxLogQueueLength (full_console B) = 20
   \<and> length (logQueue (printer B (full_console B) (talkative obj))) = 21
   \<and> maxLogQueueLength (printer B (full_console B) (talkative obj)) = 20
   \<and> emitted (printer B (full_console B) (talkative obj))
       = emitted (full_console B)
           @ [Ev_overflow (Some (msg_of B (LOG, [JString ''line''], False, ''id''))),
              Ev_log (msg_of B (LOG, [JString ''converting''], False, ''inner'')),
              Ev_log (msg_of B (LOG, [JOther obj], False, ''outer''))]
   \<and> length (logQueue (prints B (printer B (full_console B) (talkative obj)) (map plain ps))) = 21"
proof -
  have q: "logQueue (full_console B)
      = replicate 20 (msg_of B (LOG, [JString ''line''], False, ''id''))"
    and m: "maxLogQueueLength (full_console B) = 20"
    by (rule full_console_eq)+
  have l: "length (logQueue (full_console B)) = 20" by (simp add: q)
  have r: "replicate 20 (msg_of B (LOG, [JString ''line''], False, ''id''))
      = msg_of B (LOG, [JString ''line''], False, ''id'')
          # replicate 19 (msg_of B (LOG, [JString ''line''], False, ''id''))"
    by (simp add: numeral_eq_Suc)
  have s: "shift (logQueue (full_console B))
      = (Some (msg_of B (LOG, [JString ''line''], False, ''id'')),
         replicate 19 (msg_of B (LOG, [JString ''line''], False, ''id'')))"
    by (simp only: q r shift_def list.case)
  have 1: "length (logQueue (printer B (full_console B) (talkative obj))) = 21"
    by (simp add: talkative_def m l s Let_def)
  have 2: "maxLogQueueLength (printer B (full_console B) (talkative obj)) = 20"
    by (simp add: printer_max m)
  have 3: "emitted (printer B (full_console B) (talkative obj))
       = emitted (full_console B)
           @ [Ev_overflow (Some (msg_of B (LOG, [JString ''line''], False, ''id''))),
              Ev_log (msg_of B (LOG, [JString ''converting''], False, ''inner'')),
              Ev_log (msg_of B (LOG, [JOther obj], False, ''outer''))]"
    by (simp add: talkative_def m l s Let_def msg_of_def)
  have 4: "length (logQueue (prints B (printer B (full_console B) (talkative obj)) (map plain ps)))
      = length (logQueue (printer B (full_console B) (talkative obj)))"
    by (rule prints_plain_length) (simp_all add: 1 2)
  show ?thesis using l m 1 2 3 4 by simp
qed

lemma format_scan_percent_c:
  "argIndex < length args \<Longrightarrow>
   format_scan B (CHR ''%'' # CHR ''c'' # rest) args argIndex result
     = format_scan B rest args (argIndex + 2) result"
  by (simp add: format_switch_def)

text \<open>
  Claim C8 (the code differs).  In \<^verbatim>\<open>Console.format\<close> the argument is taken by
  \<^verbatim>\<open>args[argIndex++]\<close> before the switch, and the case for \<^verbatim>\<open>%c\<close> increments
  \<open>argIndex\<close> once more: a \<^verbatim>\<open>%c\<close> with an argument left moves the argument index by
  two.  With the format string \<^verbatim>\<open>%c%s\<close>, a style and the text \<^verbatim>\<open>a\<close>, the text is
  skipped with the style and \<^verbatim>\<open>%s\<close> is printed literally; with one more argument the
  \<^verbatim>\<open>%s\<close> shows that one.
\<close>

theorem format_percent_c_skips_two:
  "format_switch B (CHR ''c'') arg = (1, [])
   \<and> format_scan B ''%c%s'' [JString ''%c%s'', JString ''color: red'', JString ''a''] 1 []
       = (3, ''%s'')
   \<and> format B [JString ''%c%s'', JString ''color: red'', JString ''a''] = ''%s''
   \<and> format B [JString ''%c%s'', JString ''color: red'', JString ''a'', JString ''b''] = ''b''"
  by (simp add: format_def format_switch_def format_rest_def newline_to_br_def escapeHtml_def)

lemma foldl_apply_op_conserves:
  "(\<And>x c. x \<in> set ops \<Longrightarrow>
       overflowed (emitted (apply_op B c x)) @ logQueue (apply_op B c x)
         = overflowed (emitted c) @ logQueue c @ pushed_by B x)
   \<Longrightarrow> overflowed (emitted (foldl (apply_op B) c ops)) @ logQueue (foldl (apply_op B) c ops)
         = overflowed (emitted c) @ logQueue c @ printed B ops"
proof (induction ops arbitrary: c)
  case Nil
  show ?case by (simp add: printed_def)
next
  case (Cons x xs)
  have "overflowed (emitted (foldl (apply_op B) (apply_op B c x) xs))
          @ logQueue (foldl (apply_op B) (apply_op B c x) xs)
      = overflowed (emitted (apply_op B c x)) @ logQueue (apply_op B c x) @ printed B xs"
    by (rule Cons.IH) (simp add: Cons.prems)
  also have "\<dots> = (overflowed (emitted c) @ logQueue c @ pushed_by B x) @ printed B xs"
    using Cons.prems [of x c] by simp
  finally show ?case by (simp add: printed_def)
qed

lemma printer_apply_op_conserves:
  "overflowed (emitted (printer B c call)) @ logQueue (printer B c call)
     = overflowed (emitted c) @ logQueue c @ pushed B call"
  "overflowed (emitted (apply_op B c op)) @ logQueue (apply_op B c op)
     = overflowed (emitted c) @ logQueue c @ pushed_by B op"
proof (induction call and op arbitrary: c and c)
  case (PrinterCall lvl args w u reentered throws)
  let ?c1 = "if maxLogQueueLength c \<le> length (logQueue c)
             then (case shift (logQueue c) of
                     (m, q) \<Rightarrow> c\<lparr>logQueue := q, emitted := emitted c @ [Ev_overflow m]\<rparr>)
             else c"
  let ?c2 = "foldl (apply_op B) ?c1 reentered"
  have 1: "overflowed (emitted ?c1) @ logQueue ?c1 = overflowed (emitted c) @ logQueue c"
    by (cases "logQueue c") (simp_all add: shift_def overflowed_append)
  have 2: "overflowed (emitted ?c2) @ logQueue ?c2
      = overflowed (emitted ?c1) @ logQueue ?c1 @ printed B reentered"
    by (rule foldl_apply_op_conserves) (rule PrinterCall.IH)
  have 3: "overflowed (emitted ?c2) @ logQueue ?c2
      = overflowed (emitted c) @ logQueue c @ printed B reentered"
    using 1 2 by simp
  show ?case
  proof (cases throws)
    case True
    then show ?thesis using 3 by (simp add: Let_def printed_def)
  next
    case False
    have "overflowed (emitted (printer B c (PrinterCall lvl args w u reentered throws)))
            @ logQueue (printer B c (PrinterCall lvl args w u reentered throws))
        = (overflowed (emitted ?c2) @ logQueue ?c2) @ [msg_of B (lvl, args, w, u)]"
      using False by (simp add: Let_def overflowed_append msg_of_def)
    then show ?thesis using False 3 by (simp add: printed_def)
  qed
next
  case (Op_print call)
  then show ?case by simp
next
  case Op_clear
  show ?case by (simp add: clear_def overflowed_append)
qed

lemma run_ops_conserves:
  "overflowed (emitted (foldl (apply_op B) c ops)) @ logQueue (foldl (apply_op B) c ops)
     = overflowed (emitted c) @ logQueue c @ printed B ops"
  by (rule foldl_apply_op_conserves) (rule printer_apply_op_conserves)

text \<open>
  Claim C9.  \<^verbatim>\<open>clear()\<close> emits one \<^verbatim>\<open>clear\<close> event carrying the queue as it is and
  leaves the queue (and its capacity) unchanged.  Over any sequence of printer calls and
  clears, messages leave the queue only through an overflow: the messages carried by
  overflow events followed by the queue are always the earlier ones followed by the
  messages printed since.
\<close>

theorem clear_keeps_queue:
  "logQueue (clear c) = logQueue c
   \<and> maxLogQueueLength (clear c) = maxLogQueueLength c
   \<and> emitted (clear c) = emitted c @ [Ev_clear (logQueue c)]
   \<and> overflowed (emitted (foldl (apply_op B) c ops)) @ logQueue (foldl (apply_op B) c ops)
       = overflowed (emitted c) @ logQueue c @ printed B ops"
  using run_ops_conserves [of B c ops] by (simp add: clear_def)

section \<open>Theorems: router\<close>

lemma names_fresh_static:
  "names_fresh used node \<Longrightarrow> map_of (children node) seg = Some c \<Longrightarrow> names_fresh used c"
proof -
  assume a: "names_fresh used node" and b: "map_of (children node) seg = Some c"
  obtain h cs pc w where n: "node = RouteNode h cs pc w" by (cases node)
  from b have "(seg, c) \<in> set cs" by (simp add: n map_of_SomeD)
  with a show ?thesis by (auto simp: n list_all_iff)
qed

lemma names_fresh_param:
  "names_fresh used node \<Longrightarrow> paramchild node = Some pc \<Longrightarrow>
     fst pc \<notin> set used \<and> names_fresh (fst pc # used) (snd pc)"
  by (cases node) auto

lemma Object_delete_set:
  "ps nm = None \<Longrightarrow> Object_delete (Object_set ps nm seg) nm = ps"
  by (auto simp: Object_delete_def Object_set_def fun_upd_idem)

lemma dom_Object_set: "dom ps \<subseteq> set used \<Longrightarrow> dom (Object_set ps nm seg) \<subseteq> set (nm # used)"
  by (auto simp: Object_set_def)

lemma match_none:
  "match node segs ps = (None, ps') \<Longrightarrow>
     (\<forall>cs. follow node segs cs = None)
     \<and> (\<forall>used. names_fresh used node \<longrightarrow> dom ps \<subseteq> set used \<longrightarrow> ps' = ps)"
proof (induction segs arbitrary: node ps ps')
  case Nil
  then have "handler node = None" and "ps' = ps" by simp_all
  moreover have "\<And>cs. follow node [] cs = None"
    using \<open>handler node = None\<close> by (case_tac cs) simp_all
  ultimately show ?case by simp
next
  case (Cons seg rest)
  text \<open>the static descent\<close>
  obtain r1 p1 where s1:
    "(case map_of (children node) seg of None \<Rightarrow> (None, ps)
      | Some c \<Rightarrow> match c rest ps) = (r1, p1)" by fastforce
  have r1: "r1 = None" using Cons.prems s1 by (auto split: option.splits prod.splits)
  have st_follow: "\<And>cs. follow node (seg # rest) (Static # cs) = None"
    using s1 r1 Cons.IH by (auto split: option.splits)
  have st_ps: "\<And>used. names_fresh used node \<Longrightarrow> dom ps \<subseteq> set used \<Longrightarrow> p1 = ps"
    using s1 r1 Cons.IH names_fresh_static by (fastforce split: option.splits)
  show ?case
  proof (cases "paramchild node")
    case None
    have w: "match_wildcard node = None" and p: "ps' = p1"
      using Cons.prems s1 r1 None by (auto split: option.splits prod.splits)
    have "\<And>cs. follow node (seg # rest) cs = None"
    proof -
      fix cs show "follow node (seg # rest) cs = None"
      proof (cases cs)
        case Nil then show ?thesis by simp
      next
        case (Cons a as)
        show ?thesis
        proof (cases a)
          case Static then show ?thesis using Cons st_follow by simp
        next
          case Param then show ?thesis using Cons None by simp
        next
          case Wild then show ?thesis using Cons w by (cases as) simp_all
        qed
      qed
    qed
    then show ?thesis using st_ps p by auto
  next
    case (Some pc)
    obtain r2 p2 where s2: "match (snd pc) rest (Object_set p1 (fst pc) seg) = (r2, p2)"
      by fastforce
    have r2: "r2 = None" and w: "match_wildcard node = None"
      and p: "ps' = Object_delete p2 (fst pc)"
      using Cons.prems s1 r1 Some s2 by (auto split: option.splits prod.splits)
    have s2': "match (snd pc) rest (Object_set p1 (fst pc) seg) = (None, p2)" using s2 r2 by simp
    note ih2 = Cons.IH [OF s2']
    have pa_follow: "\<And>cs. follow node (seg # rest) (Param # cs) = None"
      using ih2 Some by simp
    have all: "\<And>cs. follow node (seg # rest) cs = None"
    proof -
      fix cs show "follow node (seg # rest) cs = None"
      proof (cases cs)
        case Nil then show ?thesis by simp
      next
        case (Cons a as)
        show ?thesis
        proof (cases a)
          case Static then show ?thesis using Cons st_follow by simp
        next
          case Param then show ?thesis using Cons pa_follow by simp
        next
          case Wild then show ?thesis using Cons w by (cases as) simp_all
        qed
      qed
    qed
    have "\<And>used. names_fresh used node \<Longrightarrow> dom ps \<subseteq> set used \<Longrightarrow> ps' = ps"
    proof -
      fix used assume nf: "names_fresh used node" and d: "dom ps \<subseteq> set used"
      have p1: "p1 = ps" using st_ps nf d by simp
      have fr: "fst pc \<notin> set used" "names_fresh (fst pc # used) (snd pc)"
        using names_fresh_param [OF nf Some] by simp_all
      have "dom (Object_set ps (fst pc) seg) \<subseteq> set (fst pc # used)"
        using d by (rule dom_Object_set)
      then have "p2 = Object_set ps (fst pc) seg"
        using ih2 fr p1 by blast
      moreover have "ps (fst pc) = None" using fr d by auto
      ultimately show "ps' = ps" using p by (simp add: Object_delete_set)
    qed
    then show ?thesis using all by auto
  qed
qed

lemma earlier_Static:
  "earlier cs' (Static # cs) \<Longrightarrow> \<exists>as. cs' = Static # as \<and> earlier as cs"
  by (cases cs'; simp)

lemma earlier_Param:
  "earlier cs' (Param # cs) \<Longrightarrow>
     (\<exists>as. cs' = Static # as) \<or> (\<exists>as. cs' = Param # as \<and> earlier as cs)"
proof (cases cs')
  case Nil
  assume "earlier cs' (Param # cs)" then show ?thesis using Nil by simp
next
  case (Cons a as)
  assume "earlier cs' (Param # cs)"
  then show ?thesis using Cons by (cases a) auto
qed

lemma earlier_Wild:
  "earlier cs' [Wild] \<Longrightarrow> (\<exists>as. cs' = Static # as) \<or> (\<exists>as. cs' = Param # as)"
proof (cases cs')
  case Nil
  assume "earlier cs' [Wild]" then show ?thesis using Nil by simp
next
  case (Cons a as)
  assume "earlier cs' [Wild]"
  then show ?thesis using Cons by (cases a) auto
qed

lemma map_add_bind:
  "nm \<notin> fst ` set bs \<Longrightarrow>
   (ps(nm \<mapsto> seg)) ++ map_of bs = ps ++ map_of ((nm, seg) # bs)"
proof (rule ext)
  fix k assume a: "nm \<notin> fst ` set bs"
  then have "map_of bs nm = None" by (simp add: map_of_eq_None_iff)
  then show "((ps(nm \<mapsto> seg)) ++ map_of bs) k = (ps ++ map_of ((nm, seg) # bs)) k"
    by (cases "k = nm") (simp_all add: map_add_def split: option.splits)
qed

text \<open>The own properties after the bindings \<open>bs\<close> have been assigned.\<close>

lemma Object_set_bind:
  assumes "nm \<notin> fst ` set bs"
  shows "Object_set ps nm seg ++ map_of (filter (\<lambda>b. fst b \<noteq> ''__proto__'') bs)
       = ps ++ map_of (filter (\<lambda>b. fst b \<noteq> ''__proto__'') ((nm, seg) # bs))"
proof (cases "nm = ''__proto__''")
  case True
  then show ?thesis by (simp add: Object_set_def)
next
  case False
  have "nm \<notin> fst ` set (filter (\<lambda>b. fst b \<noteq> ''__proto__'') bs)" using assms by auto
  from map_add_bind [OF this, of ps seg] show ?thesis using False by (simp add: Object_set_def)
qed

lemma match_some:
  "match node segs ps = (Some h, ps') \<Longrightarrow>
     \<exists>cs bs. follow node segs cs = Some (h, bs)
       \<and> (\<forall>cs'. earlier cs' cs \<longrightarrow> follow node segs cs' = None)
       \<and> (\<forall>used. names_fresh used node \<longrightarrow> dom ps \<subseteq> set used \<longrightarrow>
            ps' = ps ++ map_of (filter (\<lambda>b. fst b \<noteq> ''__proto__'') bs)
            \<and> distinct (map fst bs) \<and> fst ` set bs \<inter> set used = {})"
proof (induction segs arbitrary: node ps ps')
  case Nil
  then have "follow node [] [] = Some (h, [])" and "ps' = ps" by simp_all
  then show ?case by (intro exI [of _ "[]"]) simp
next
  case (Cons seg rest)
  obtain r1 p1 where s1:
    "(case map_of (children node) seg of None \<Rightarrow> (None, ps)
      | Some c \<Rightarrow> match c rest ps) = (r1, p1)" by fastforce
  show ?case
  proof (cases r1)
    case (Some h1)
    have res: "h = h1" "ps' = p1" using Cons.prems s1 Some by simp_all
    obtain c where c: "map_of (children node) seg = Some c"
      and m: "match c rest ps = (Some h, p1)"
      using s1 Some res by (auto split: option.splits)
    from Cons.IH [OF m] obtain cs bs where f: "follow c rest cs = Some (h, bs)"
      and mn: "\<forall>cs'. earlier cs' cs \<longrightarrow> follow c rest cs' = None"
      and pr: "\<forall>used. names_fresh used c \<longrightarrow> dom ps \<subseteq> set used \<longrightarrow>
            p1 = ps ++ map_of (filter (\<lambda>b. fst b \<noteq> ''__proto__'') bs)
            \<and> distinct (map fst bs) \<and> fst ` set bs \<inter> set used = {}"
      by blast
    have 1: "follow node (seg # rest) (Static # cs) = Some (h, bs)" using c f res by simp
    have 2: "\<forall>cs'. earlier cs' (Static # cs) \<longrightarrow> follow node (seg # rest) cs' = None"
      using mn c by (auto dest!: earlier_Static)
    have 3: "\<forall>used. names_fresh used node \<longrightarrow> dom ps \<subseteq> set used \<longrightarrow>
            ps' = ps ++ map_of (filter (\<lambda>b. fst b \<noteq> ''__proto__'') bs)
            \<and> distinct (map fst bs) \<and> fst ` set bs \<inter> set used = {}"
      using pr res names_fresh_static [OF _ c] by blast
    show ?thesis using 1 2 3 by blast
  next
    case None
    have st_follow: "\<And>cs. follow node (seg # rest) (Static # cs) = None"
    proof (cases "map_of (children node) seg")
      case None then show "\<And>cs. follow node (seg # rest) (Static # cs) = None" by simp
    next
      case (Some c)
      then have "match c rest ps = (None, p1)" using s1 \<open>r1 = None\<close> by simp
      from match_none [OF this] show "\<And>cs. follow node (seg # rest) (Static # cs) = None"
        using Some by simp
    qed
    have st_ps: "\<And>used. names_fresh used node \<Longrightarrow> dom ps \<subseteq> set used \<Longrightarrow> p1 = ps"
    proof (cases "map_of (children node) seg")
      case None
      then show "\<And>used. names_fresh used node \<Longrightarrow> dom ps \<subseteq> set used \<Longrightarrow> p1 = ps"
        using s1 by simp
    next
      case (Some c)
      then have "match c rest ps = (None, p1)" using s1 \<open>r1 = None\<close> by simp
      from match_none [OF this] names_fresh_static [OF _ Some]
      show "\<And>used. names_fresh used node \<Longrightarrow> dom ps \<subseteq> set used \<Longrightarrow> p1 = ps" by blast
    qed
    show ?thesis
    proof (cases "paramchild node")
      case pn: None
      have w: "match_wildcard node = Some h" and p: "ps' = p1"
        using Cons.prems s1 None pn by (auto split: option.splits prod.splits)
      have 1: "follow node (seg # rest) [Wild] = Some (h, [])" using w by simp
      have 2: "\<forall>cs'. earlier cs' [Wild] \<longrightarrow> follow node (seg # rest) cs' = None"
        using st_follow pn by (auto dest!: earlier_Wild)
      have 3: "\<forall>used. names_fresh used node \<longrightarrow> dom ps \<subseteq> set used \<longrightarrow>
            ps' = ps ++ map_of (filter (\<lambda>b. fst b \<noteq> ''__proto__'') [])
            \<and> distinct (map fst ([] :: (string \<times> string) list))
            \<and> fst ` set ([] :: (string \<times> string) list) \<inter> set used = {}"
        using st_ps p by simp
      show ?thesis using 1 2 3 by blast
    next
      case (Some pc)
      obtain r2 p2 where s2: "match (snd pc) rest (Object_set p1 (fst pc) seg) = (r2, p2)"
        by fastforce
      show ?thesis
      proof (cases r2)
        case r2: None
        have s2': "match (snd pc) rest (Object_set p1 (fst pc) seg) = (None, p2)"
          using s2 r2 by simp
        note n2 = match_none [OF s2']
        have w: "match_wildcard node = Some h" and p: "ps' = Object_delete p2 (fst pc)"
          using Cons.prems s1 None Some s2 r2 by (auto split: option.splits prod.splits)
        have pa_follow: "\<And>cs. follow node (seg # rest) (Param # cs) = None"
          using n2 Some by simp
        have 1: "follow node (seg # rest) [Wild] = Some (h, [])" using w by simp
        have 2: "\<forall>cs'. earlier cs' [Wild] \<longrightarrow> follow node (seg # rest) cs' = None"
          using st_follow pa_follow by (auto dest!: earlier_Wild)
        have 3: "\<forall>used. names_fresh used node \<longrightarrow> dom ps \<subseteq> set used \<longrightarrow>
            ps' = ps ++ map_of (filter (\<lambda>b. fst b \<noteq> ''__proto__'') [])
            \<and> distinct (map fst ([] :: (string \<times> string) list))
            \<and> fst ` set ([] :: (string \<times> string) list) \<inter> set used = {}"
        proof (intro allI impI)
          fix used assume nf: "names_fresh used node" and d: "dom ps \<subseteq> set used"
          have p1: "p1 = ps" using st_ps nf d by simp
          have fr: "fst pc \<notin> set used" "names_fresh (fst pc # used) (snd pc)"
            using names_fresh_param [OF nf Some] by simp_all
          have "dom (Object_set ps (fst pc) seg) \<subseteq> set (fst pc # used)"
            using d by (rule dom_Object_set)
          then have "p2 = Object_set ps (fst pc) seg" using n2 fr p1 by blast
          moreover have "ps (fst pc) = None" using fr d by auto
          ultimately have "ps' = ps" using p by (simp add: Object_delete_set)
          then show "ps' = ps ++ map_of (filter (\<lambda>b. fst b \<noteq> ''__proto__'') [])
            \<and> distinct (map fst ([] :: (string \<times> string) list))
            \<and> fst ` set ([] :: (string \<times> string) list) \<inter> set used = {}" by simp
        qed
        show ?thesis using 1 2 3 by blast
      next
        case (Some h2)
        have res: "h = h2" "ps' = p2"
          using Cons.prems s1 None \<open>paramchild node = Some pc\<close> s2 Some
          by (auto split: option.splits prod.splits)
        have s2': "match (snd pc) rest (Object_set p1 (fst pc) seg) = (Some h, p2)"
          using s2 Some res by simp
        from Cons.IH [OF s2'] obtain cs bs where f: "follow (snd pc) rest cs = Some (h, bs)"
          and mn: "\<forall>cs'. earlier cs' cs \<longrightarrow> follow (snd pc) rest cs' = None"
          and pr: "\<forall>used. names_fresh used (snd pc) \<longrightarrow>
            dom (Object_set p1 (fst pc) seg) \<subseteq> set used \<longrightarrow>
            p2 = Object_set p1 (fst pc) seg ++ map_of (filter (\<lambda>b. fst b \<noteq> ''__proto__'') bs)
            \<and> distinct (map fst bs) \<and> fst ` set bs \<inter> set used = {}"
          by blast
        have 1: "follow node (seg # rest) (Param # cs) = Some (h, (fst pc, seg) # bs)"
          using f res \<open>paramchild node = Some pc\<close> by simp
        have 2: "\<forall>cs'. earlier cs' (Param # cs) \<longrightarrow> follow node (seg # rest) cs' = None"
          using mn st_follow \<open>paramchild node = Some pc\<close> by (auto dest!: earlier_Param)
        have 3: "\<forall>used. names_fresh used node \<longrightarrow> dom ps \<subseteq> set used \<longrightarrow>
            ps' = ps ++ map_of (filter (\<lambda>b. fst b \<noteq> ''__proto__'') ((fst pc, seg) # bs))
            \<and> distinct (map fst ((fst pc, seg) # bs))
            \<and> fst ` set ((fst pc, seg) # bs) \<inter> set used = {}"
        proof (intro allI impI)
          fix used assume nf: "names_fresh used node" and d: "dom ps \<subseteq> set used"
          have p1: "p1 = ps" using st_ps nf d by simp
          have fr: "fst pc \<notin> set used" "names_fresh (fst pc # used) (snd pc)"
            using names_fresh_param [OF nf \<open>paramchild node = Some pc\<close>] by simp_all
          have "dom (Object_set p1 (fst pc) seg) \<subseteq> set (fst pc # used)"
            using d p1 by (simp only: dom_Object_set)
          with pr fr have a:
            "p2 = Object_set p1 (fst pc) seg ++ map_of (filter (\<lambda>b. fst b \<noteq> ''__proto__'') bs)"
            "distinct (map fst bs)"
            "fst ` set bs \<inter> set (fst pc # used) = {}" by blast+
          have nin: "fst pc \<notin> fst ` set bs" using a(3) by auto
          have "ps' = ps ++ map_of (filter (\<lambda>b. fst b \<noteq> ''__proto__'') ((fst pc, seg) # bs))"
            using a(1) res p1 Object_set_bind [OF nin, of ps seg] by simp
          moreover have "distinct (map fst ((fst pc, seg) # bs))" using a(2) nin by simp
          moreover have "fst ` set ((fst pc, seg) # bs) \<inter> set used = {}" using a(3) fr by auto
          ultimately show
            "ps' = ps ++ map_of (filter (\<lambda>b. fst b \<noteq> ''__proto__'') ((fst pc, seg) # bs))
            \<and> distinct (map fst ((fst pc, seg) # bs))
            \<and> fst ` set ((fst pc, seg) # bs) \<inter> set used = {}" by blast
        qed
        show ?thesis using 1 2 3 by blast
      qed
    qed
  qed
qed

subsection \<open>The trie built from a table of routes\<close>

lemma addroute_walk_pattern:
  "addroute_walk node segs h = insert_pattern node (pattern_of segs) h"
proof (induction segs arbitrary: node)
  case Nil
  show ?case by simp
next
  case (Cons segment segments)
  show ?case
  proof (cases "take 1 segment = '':''")
    case True
    then show ?thesis using Cons by (simp add: Let_def split: option.splits)
  next
    case False
    then show ?thesis using Cons by (simp add: Let_def)
  qed
qed

lemma trie_of_snoc: "trie_of (rts @ [r]) = insert_pattern (trie_of rts) (fst r) (snd r)"
  by (simp add: trie_of_def)

lemma trie_of_Nil: "trie_of [] = createnode" by (simp add: trie_of_def)

lemma trie_of_single: "trie_of [(pat, h)] = insert_pattern createnode pat h"
  by (simp add: trie_of_def)

lemma register_trie: "register rs m = trie_of (table rs m)"
proof (induction rs rule: rev_induct)
  case Nil
  show ?case by (simp add: register_def table_def trie_of_def new_Router_def)
next
  case (snoc r rs)
  have a: "register (rs @ [r]) = addroute (register rs) (fst r) (fst (snd r)) (snd (snd r))"
    by (simp add: register_def)
  show ?case
  proof (cases "fst r = m")
    case True
    have "table (rs @ [r]) m
        = table rs m @ [(pattern_of (parsepath (fst (snd r))), snd (snd r))]"
      using True by (simp add: table_def)
    then show ?thesis using True snoc
      by (simp add: a addroute_def trie_of_snoc addroute_walk_pattern)
  next
    case False
    then have "table (rs @ [r]) m = table rs m" by (simp add: table_def)
    then show ?thesis using False snoc by (simp add: a addroute_def)
  qed
qed

lemma under_lit_append: "under_lit x (as @ bs) = under_lit x as @ under_lit x bs"
  by (induction x as rule: under_lit.induct) simp_all

lemma under_par_append: "under_par (as @ bs) = under_par as @ under_par bs"
  by (induction as rule: under_par.induct) simp_all

lemma par_name_append:
  "par_name (as @ bs) = (case par_name as of None \<Rightarrow> par_name bs | Some n \<Rightarrow> Some n)"
  by (induction as rule: par_name.induct) simp_all

lemma ends_append: "ends (as @ bs) = (case ends bs of None \<Rightarrow> ends as | Some h \<Rightarrow> Some h)"
  by (induction as rule: ends.induct) (simp_all split: option.splits)

lemma star_append: "star (as @ bs) = (case star bs of None \<Rightarrow> star as | Some h \<Rightarrow> Some h)"
  by (induction as rule: star.induct) (simp_all split: option.splits)

lemma par_name_None: "par_name rts = None \<Longrightarrow> under_par rts = []"
  by (induction rts rule: par_name.induct) simp_all

lemma map_of_Map_set: "map_of (Map_set k v l) = (map_of l)(k \<mapsto> v)"
  by (induction l) (auto simp: fun_upd_twist)

lemma handler_trie_of: "handler (trie_of rts) = ends rts"
proof (induction rts rule: rev_induct)
  case Nil
  show ?case by (simp add: trie_of_Nil createnode_def)
next
  case (snoc r rts)
  obtain pat h where r: "r = (pat, h)" by (cases r)
  show ?case
  proof (cases pat)
    case Nil
    then show ?thesis by (simp add: trie_of_snoc r ends_append)
  next
    case (Cons a pat')
    then show ?thesis using snoc
      by (cases a) (simp_all add: trie_of_snoc r ends_append Let_def)
  qed
qed

lemma children_trie_of:
  "map_of (children (trie_of rts)) x
     = (if under_lit x rts = [] then None else Some (trie_of (under_lit x rts)))"
proof (induction rts arbitrary: x rule: rev_induct)
  case Nil
  show ?case by (simp add: trie_of_Nil createnode_def)
next
  case (snoc r rts)
  obtain pat h where r: "r = (pat, h)" by (cases r)
  show ?case
  proof (cases pat)
    case Nil
    then show ?thesis using snoc [of x] by (simp add: trie_of_snoc r under_lit_append)
  next
    case (Cons a pat')
    show ?thesis
    proof (cases a)
      case (Lit s)
      have c: "(case map_of (children (trie_of rts)) s of None \<Rightarrow> createnode | Some c \<Rightarrow> c)
          = trie_of (under_lit s rts)"
        using snoc [of s] by (simp add: trie_of_Nil)
      have t: "trie_of (rts @ [(Lit s # pat', h)])
          = RouteNode (handler (trie_of rts))
              (Map_set s (trie_of (under_lit s rts @ [(pat', h)])) (children (trie_of rts)))
              (paramchild (trie_of rts)) (wildcardchild (trie_of rts))"
        by (simp add: trie_of_snoc Let_def c)
      show ?thesis
      proof (cases "x = s")
        case True
        then show ?thesis unfolding r Cons Lit
          by (simp add: t map_of_Map_set under_lit_append)
      next
        case False
        then show ?thesis using snoc [of x] unfolding r Cons Lit
          by (simp add: t map_of_Map_set under_lit_append)
      qed
    next
      case (Par n)
      then show ?thesis using snoc [of x] Cons
        by (simp add: trie_of_snoc r under_lit_append Let_def)
    next
      case Star
      then show ?thesis using snoc [of x] Cons
        by (simp add: trie_of_snoc r under_lit_append Let_def)
    qed
  qed
qed

lemma paramchild_trie_of:
  "paramchild (trie_of rts)
     = (case par_name rts of None \<Rightarrow> None | Some n \<Rightarrow> Some (n, trie_of (under_par rts)))"
proof (induction rts rule: rev_induct)
  case Nil
  show ?case by (simp add: trie_of_Nil createnode_def)
next
  case (snoc r rts)
  obtain pat h where r: "r = (pat, h)" by (cases r)
  show ?case
  proof (cases pat)
    case Nil
    then show ?thesis using snoc
      by (simp add: trie_of_snoc r under_par_append par_name_append split: option.splits)
  next
    case (Cons a pat')
    show ?thesis
    proof (cases a)
      case (Lit s)
      then show ?thesis using snoc Cons
        by (simp add: trie_of_snoc r under_par_append par_name_append Let_def
            split: option.splits)
    next
      case (Par n)
      show ?thesis
      proof (cases "par_name rts")
        case None
        then have "under_par rts = []" by (rule par_name_None)
        then show ?thesis using snoc None
          by (simp add: trie_of_snoc r Cons Par under_par_append par_name_append Let_def
              trie_of_single)
      next
        case (Some n0)
        then show ?thesis using snoc
          by (simp add: trie_of_snoc r Cons Par under_par_append par_name_append Let_def)
      qed
    next
      case Star
      then show ?thesis using snoc Cons
        by (simp add: trie_of_snoc r under_par_append par_name_append Let_def
            split: option.splits)
    qed
  qed
qed

lemma wildcardchild_trie_of:
  "wildcardchild (trie_of rts)
     = (case star rts of None \<Rightarrow> None | Some h \<Rightarrow> Some (RouteNode (Some h) [] None None))"
proof (induction rts rule: rev_induct)
  case Nil
  show ?case by (simp add: trie_of_Nil createnode_def)
next
  case (snoc r rts)
  obtain pat h where r: "r = (pat, h)" by (cases r)
  show ?case
  proof (cases pat)
    case Nil
    then show ?thesis using snoc
      by (simp add: trie_of_snoc r star_append split: option.splits)
  next
    case (Cons a pat')
    then show ?thesis using snoc
      by (cases a)
         (auto simp: trie_of_snoc r star_append Let_def createnode_def split: option.splits)
  qed
qed

lemma match_wildcard_trie_of: "match_wildcard (trie_of rts) = star rts"
  by (simp add: match_wildcard_def wildcardchild_trie_of split: option.splits)

lemma lookup_Nil: "lookup [] segs cs = None"
proof (induction segs arbitrary: cs)
  case Nil
  show ?case by (cases cs) simp_all
next
  case (Cons x xs)
  show ?case
  proof (cases cs)
    case Nil
    then show ?thesis by simp
  next
    case (Cons c cs')
    then show ?thesis using Cons.IH by (cases c; cases cs') simp_all
  qed
qed

text \<open>Following a way through the trie built from a table is looking the way up in the
  table.\<close>

lemma follow_trie_of: "follow (trie_of rts) segs cs = lookup rts segs cs"
proof (induction segs arbitrary: rts cs)
  case Nil
  show ?case by (cases cs) (simp_all add: handler_trie_of)
next
  case (Cons x xs)
  show ?case
  proof (cases cs)
    case Nil
    then show ?thesis by simp
  next
    case c: (Cons c cs')
    show ?thesis
    proof (cases c)
      case Static
      show ?thesis using Cons.IH [of "under_lit x rts" cs']
        by (simp add: c Static children_trie_of lookup_Nil)
    next
      case Param
      show ?thesis using Cons.IH [of "under_par rts" cs']
        by (simp add: c Param paramchild_trie_of split: option.splits)
    next
      case Wild
      show ?thesis by (cases cs') (simp_all add: c Wild match_wildcard_trie_of)
    qed
  qed
qed

subsection \<open>Looking a way up and routes that fit\<close>

lemma ends_mem: "ends rts = Some h \<Longrightarrow> ([], h) \<in> set rts"
  by (induction rts rule: ends.induct) (auto split: option.splits)

lemma star_mem: "star rts = Some h \<Longrightarrow> \<exists>pat. (Star # pat, h) \<in> set rts"
  by (induction rts rule: star.induct) (auto split: option.splits)

lemma under_lit_mem: "(pat, h) \<in> set (under_lit x rts) \<longleftrightarrow> (Lit x # pat, h) \<in> set rts"
  by (induction x rts rule: under_lit.induct) auto

lemma under_par_mem: "(pat, h) \<in> set (under_par rts) \<longleftrightarrow> (\<exists>n. (Par n # pat, h) \<in> set rts)"
  by (induction rts rule: under_par.induct) auto

lemma mem_ends: "([], h) \<in> set rts \<Longrightarrow> ends rts \<noteq> None"
  by (induction rts rule: ends.induct) (auto split: option.splits)

lemma mem_star: "(Star # pat, h) \<in> set rts \<Longrightarrow> star rts \<noteq> None"
  by (induction rts rule: star.induct) (auto split: option.splits)

lemma mem_par_name: "(Par n # pat, h) \<in> set rts \<Longrightarrow> par_name rts \<noteq> None"
  by (induction rts rule: par_name.induct) auto

lemma lookup_fits:
  "lookup rts segs cs = Some (h, bs) \<Longrightarrow> \<exists>pat. (pat, h) \<in> set rts \<and> fits pat segs cs"
proof (induction segs arbitrary: rts cs bs)
  case Nil
  have cs: "cs = []" using Nil by (cases cs) simp_all
  have "ends rts = Some h" using Nil by (simp add: cs split: option.splits)
  then have "([], h) \<in> set rts \<and> fits [] [] cs" using ends_mem [of rts h] by (simp add: cs)
  then show ?case by blast
next
  case (Cons x xs)
  then obtain c cs' where c: "cs = c # cs'" by (cases cs) auto
  show ?case
  proof (cases c)
    case Static
    then have "lookup (under_lit x rts) xs cs' = Some (h, bs)" using Cons.prems c by simp
    from Cons.IH [OF this] obtain pat where "(pat, h) \<in> set (under_lit x rts)" "fits pat xs cs'"
      by blast
    then have "(Lit x # pat, h) \<in> set rts \<and> fits (Lit x # pat) (x # xs) cs"
      by (simp add: under_lit_mem c Static)
    then show ?thesis by blast
  next
    case Param
    then have "\<exists>bs'. lookup (under_par rts) xs cs' = Some (h, bs')"
      using Cons.prems by (cases "lookup (under_par rts) xs cs'")
        (auto simp: c split: option.splits)
    then obtain bs' where "lookup (under_par rts) xs cs' = Some (h, bs')" ..
    from Cons.IH [OF this] obtain pat where "(pat, h) \<in> set (under_par rts)" "fits pat xs cs'"
      by blast
    then obtain n where "(Par n # pat, h) \<in> set rts \<and> fits (Par n # pat) (x # xs) cs"
      by (auto simp: under_par_mem c Param)
    then show ?thesis by blast
  next
    case Wild
    have e: "cs' = []" using Cons.prems c Wild by (cases cs') simp_all
    have "star rts = Some h" using Cons.prems by (simp add: c Wild e split: option.splits)
    then obtain pat where "(Star # pat, h) \<in> set rts" using star_mem [of rts h] by blast
    then have "(Star # pat, h) \<in> set rts \<and> fits (Star # pat) (x # xs) cs"
      by (simp add: c Wild e)
    then show ?thesis by blast
  qed
qed

lemma fits_lookup:
  "(pat, h) \<in> set rts \<Longrightarrow> fits pat segs cs \<Longrightarrow> lookup rts segs cs \<noteq> None"
proof (induction segs arbitrary: rts cs pat)
  case Nil
  have "pat = [] \<and> cs = []" using Nil.prems(2) by (cases pat; cases cs) simp_all
  then show ?case using mem_ends [of h rts] Nil.prems(1) by (auto split: option.splits)
next
  case (Cons x xs)
  obtain a pat' where pat: "pat = a # pat'" using Cons.prems(2) by (cases pat) simp_all
  obtain c cs' where cs: "cs = c # cs'" using Cons.prems(2) pat by (cases cs; cases a) simp_all
  show ?case
  proof (cases a)
    case (Lit s)
    have f: "c = Static \<and> s = x \<and> fits pat' xs cs'"
      using Cons.prems(2) by (cases c) (simp_all add: pat cs Lit)
    have m: "(pat', h) \<in> set (under_lit x rts)"
      using Cons.prems(1) f by (simp add: under_lit_mem pat Lit)
    have f': "fits pat' xs cs'" using f by simp
    have "lookup (under_lit x rts) xs cs' \<noteq> None" using m f' by (rule Cons.IH)
    then show ?thesis using f by (simp add: cs)
  next
    case (Par n)
    have f: "c = Param \<and> fits pat' xs cs'"
      using Cons.prems(2) by (cases c) (simp_all add: pat cs Par)
    have m: "(pat', h) \<in> set (under_par rts)"
      using Cons.prems(1) by (auto simp: under_par_mem pat Par)
    have p: "par_name rts \<noteq> None" using Cons.prems(1) unfolding pat Par by (rule mem_par_name)
    have f': "fits pat' xs cs'" using f by simp
    have "lookup (under_par rts) xs cs' \<noteq> None" using m f' by (rule Cons.IH)
    then show ?thesis using f p by (auto simp: cs split: option.splits)
  next
    case Star
    have f: "c = Wild \<and> cs' = []"
      using Cons.prems(2) by (cases c; cases cs') (simp_all add: pat cs Star)
    have "star rts \<noteq> None" using Cons.prems(1) unfolding pat Star by (rule mem_star)
    then show ?thesis using f by (auto simp: cs split: option.splits)
  qed
qed

text \<open>
  Claim C2, amended.  For a router built by registering the routes \<open>rs\<close> and a method it
  knows: \<^verbatim>\<open>matchroute\<close> returns nothing exactly when no route of that method fits the
  path.  Otherwise there is a way \<open>cs\<close> along which a route with the returned handler fits
  the path, no route fits along a way that is earlier in the order static, parameter,
  wildcard at each segment, and the handler and the parameter names are those that the
  table of routes gives along this way: the handler of the last route registered with
  this pattern and, for each parameter position, the name given by the first route
  registered through it.  If no name occurs twice on a way down the trie, the returned
  params bind exactly these names, each to the segment at its position, except that a
  parameter named \<^verbatim>\<open>__proto__\<close> is not bound at all.
\<close>

theorem matchroute_first_way:
  assumes "method_of method = Some m"
  shows "(matchroute (register rs) method path = None \<longrightarrow>
            (\<forall>pat h cs. (pat, h) \<in> set (table rs m) \<longrightarrow> \<not> fits pat (parsepath path) cs))
       \<and> (\<forall>h params. matchroute (register rs) method path = Some (h, params) \<longrightarrow>
            (\<exists>cs bs pat.
               lookup (table rs m) (parsepath path) cs = Some (h, bs)
               \<and> (pat, h) \<in> set (table rs m) \<and> fits pat (parsepath path) cs
               \<and> (\<forall>cs' pat' h'. earlier cs' cs \<longrightarrow> (pat', h') \<in> set (table rs m) \<longrightarrow>
                      \<not> fits pat' (parsepath path) cs')
               \<and> (names_fresh [] (register rs m) \<longrightarrow>
                    params = map_of (filter (\<lambda>b. fst b \<noteq> ''__proto__'') bs)
                    \<and> distinct (map fst bs))))"
proof (intro conjI allI impI)
  fix pat h cs
  assume "matchroute (register rs) method path = None" and mem: "(pat, h) \<in> set (table rs m)"
  then obtain ps' where "match (register rs m) (parsepath path) Map.empty = (None, ps')"
    using assms by (auto simp: matchroute_def split: prod.splits option.splits)
  from match_none [OF this] have "follow (register rs m) (parsepath path) cs = None" by simp
  then have "lookup (table rs m) (parsepath path) cs = None"
    by (simp add: register_trie follow_trie_of)
  then show "\<not> fits pat (parsepath path) cs" using fits_lookup [OF mem] by blast
next
  fix h params
  assume "matchroute (register rs) method path = Some (h, params)"
  then have "match (register rs m) (parsepath path) Map.empty = (Some h, params)"
    using assms by (auto simp: matchroute_def split: prod.splits option.splits)
  from match_some [OF this] obtain cs bs
    where f: "follow (register rs m) (parsepath path) cs = Some (h, bs)"
      and mn: "\<forall>cs'. earlier cs' cs \<longrightarrow> follow (register rs m) (parsepath path) cs' = None"
      and pr: "\<forall>used. names_fresh used (register rs m) \<longrightarrow>
            dom (Map.empty :: RouteParams) \<subseteq> set used \<longrightarrow>
            params = Map.empty ++ map_of (filter (\<lambda>b. fst b \<noteq> ''__proto__'') bs)
            \<and> distinct (map fst bs) \<and> fst ` set bs \<inter> set used = {}"
    by blast
  have l: "lookup (table rs m) (parsepath path) cs = Some (h, bs)"
    using f by (simp add: register_trie follow_trie_of)
  from lookup_fits [OF l] obtain pat where
    p: "(pat, h) \<in> set (table rs m)" "fits pat (parsepath path) cs" by blast
  have e: "\<forall>cs' pat' h'. earlier cs' cs \<longrightarrow> (pat', h') \<in> set (table rs m) \<longrightarrow>
              \<not> fits pat' (parsepath path) cs'"
  proof (intro allI impI)
    fix cs' pat' h'
    assume "earlier cs' cs" and mem: "(pat', h') \<in> set (table rs m)"
    then have "lookup (table rs m) (parsepath path) cs' = None"
      using mn by (simp add: register_trie follow_trie_of)
    then show "\<not> fits pat' (parsepath path) cs'" using fits_lookup [OF mem] by blast
  qed
  have n: "names_fresh [] (register rs m) \<longrightarrow>
          params = map_of (filter (\<lambda>b. fst b \<noteq> ''__proto__'') bs) \<and> distinct (map fst bs)"
    using pr by auto
  show "\<exists>cs bs pat.
               lookup (table rs m) (parsepath path) cs = Some (h, bs)
               \<and> (pat, h) \<in> set (table rs m) \<and> fits pat (parsepath path) cs
               \<and> (\<forall>cs' pat' h'. earlier cs' cs \<longrightarrow> (pat', h') \<in> set (table rs m) \<longrightarrow>
                      \<not> fits pat' (parsepath path) cs')
               \<and> (names_fresh [] (register rs m) \<longrightarrow>
                    params = map_of (filter (\<lambda>b. fst b \<noteq> ''__proto__'') bs)
                    \<and> distinct (map fst bs))"
  proof (intro exI conjI)
    show "lookup (table rs m) (parsepath path) cs = Some (h, bs)" by (rule l)
    show "(pat, h) \<in> set (table rs m)" by (rule p(1))
    show "fits pat (parsepath path) cs" by (rule p(2))
    show "\<forall>cs' pat' h'. earlier cs' cs \<longrightarrow> (pat', h') \<in> set (table rs m) \<longrightarrow>
              \<not> fits pat' (parsepath path) cs'" by (rule e)
    show "names_fresh [] (register rs m) \<longrightarrow>
          params = map_of (filter (\<lambda>b. fst b \<noteq> ''__proto__'') bs) \<and> distinct (map fst bs)"
      by (rule n)
  qed
qed


lemma users_routes_GET:
  "register users_routes GET =
     RouteNode None
       [(''users'',
         RouteNode None
           [(''me'',
             RouteNode None
               [(''posts'', RouteNode None [] (Some (''post'', RouteNode (Some 2) [] None None)) None)]
               None None)]
           (Some (''id'',
             RouteNode None
               [(''posts'', RouteNode None [] (Some (''post'', RouteNode (Some 1) [] None None)) None)]
               None None))
           (Some (RouteNode (Some 3) [] None None)))]
       None None"
  by (simp add: users_routes_def register_def addroute_def new_Router_def parsepath_def
      createnode_def)

lemma users_table:
  "table users_routes GET =
     [([Lit ''users'', Par ''id'', Lit ''posts'', Par ''post''], 1),
      ([Lit ''users'', Lit ''me'', Lit ''posts'', Par ''post''], 2),
      ([Lit ''users'', Star], 3)]"
  by (simp add: users_routes_def table_def parsepath_def)

theorem matchroute_first_way_witness:
  "method_of ''GET'' = Some GET
   \<and> names_fresh [] (register users_routes GET)
   \<and> matchroute (register users_routes) ''GET'' ''/users/me/posts/9''
       = Some (2, [''post'' \<mapsto> ''9''])
   \<and> (\<exists>cs bs pat.
         lookup (table users_routes GET) (parsepath ''/users/me/posts/9'') cs = Some (2, bs)
         \<and> (pat, 2) \<in> set (table users_routes GET)
         \<and> fits pat (parsepath ''/users/me/posts/9'') cs
         \<and> [''post'' \<mapsto> ''9''] = map_of (filter (\<lambda>b. fst b \<noteq> ''__proto__'') bs)
         \<and> distinct (map fst bs))
   \<and> matchroute (register users_routes) ''GET'' ''/nothing'' = None
   \<and> ([Lit ''users'', Star], 3) \<in> set (table users_routes GET)
   \<and> \<not> fits [Lit ''users'', Star] (parsepath ''/nothing'') [Static, Wild]"
proof -
  have m: "method_of ''GET'' = Some GET" by (simp add: method_of_def)
  have nf: "names_fresh [] (register users_routes GET)" by (simp add: users_routes_GET)
  have r: "matchroute (register users_routes) ''GET'' ''/users/me/posts/9''
      = Some (2, [''post'' \<mapsto> ''9''])"
    by (simp add: matchroute_def method_of_def users_routes_GET parsepath_def match_wildcard_def
        Object_set_def)
  have n: "matchroute (register users_routes) ''GET'' ''/nothing'' = None"
    by (simp add: matchroute_def method_of_def users_routes_GET parsepath_def match_wildcard_def
        Object_set_def Object_delete_def)
  have t: "([Lit ''users'', Star], 3) \<in> set (table users_routes GET)" by (simp add: users_table)
  from matchroute_first_way [OF m, of users_routes "''/users/me/posts/9''"] r nf
  have 1: "\<exists>cs bs pat.
         lookup (table users_routes GET) (parsepath ''/users/me/posts/9'') cs = Some (2, bs)
         \<and> (pat, 2) \<in> set (table users_routes GET)
         \<and> fits pat (parsepath ''/users/me/posts/9'') cs
         \<and> [''post'' \<mapsto> ''9''] = map_of (filter (\<lambda>b. fst b \<noteq> ''__proto__'') bs)
         \<and> distinct (map fst bs)"
    by blast
  from matchroute_first_way [OF m, of users_routes "''/nothing''"] n t
  have 2: "\<not> fits [Lit ''users'', Star] (parsepath ''/nothing'') [Static, Wild]" by blast
  show ?thesis using m nf r n t 1 2 by blast
qed

text \<open>
  Claim C2 as stated fails.  Two routes through one parameter position: the position
  keeps the name of the first, so a request matched by the second route \<^verbatim>\<open>/:b/y\<close> comes
  back with \<^verbatim>\<open>a\<close> bound and \<^verbatim>\<open>b\<close> absent.  Where a name repeats on a way down, undoing
  a failed descent deletes the binding made further up: \<^verbatim>\<open>/1/2/bar\<close> is matched by
  \<^verbatim>\<open>/:id/*\<close> with no \<^verbatim>\<open>id\<close> at all.  And a parameter named \<^verbatim>\<open>__proto__\<close> is never bound.
\<close>

theorem matchroute_params_counterexample:
  "matched_handler (matchroute (register clash_routes) ''GET'' ''/1/y'') = Some 2
   \<and> matched_param (matchroute (register clash_routes) ''GET'' ''/1/y'') ''b'' = None
   \<and> matched_param (matchroute (register clash_routes) ''GET'' ''/1/y'') ''a'' = Some ''1''
   \<and> matched_handler (matchroute (register repeat_routes) ''GET'' ''/1/2/bar'') = Some 2
   \<and> matched_param (matchroute (register repeat_routes) ''GET'' ''/1/2/bar'') ''id'' = None
   \<and> matched_handler (matchroute (register proto_routes) ''GET'' ''/v'') = Some 1
   \<and> matched_param (matchroute (register proto_routes) ''GET'' ''/v'') ''__proto__'' = None"
  by (simp add: matched_handler_def matched_param_def matchroute_def method_of_def
        clash_routes_def repeat_routes_def proto_routes_def register_def addroute_def
        new_Router_def parsepath_def createnode_def match_wildcard_def Object_set_def
        Object_delete_def)

section \<open>Theorems: reading lines\<close>

text \<open>
  Claim C5 (the code differs).  The search for a line end accepts \<^verbatim>\<open>\r\<close> only when
  the \<^verbatim>\<open>\n\<close> is already in the buffer.  When \<^verbatim>\<open>a\r\<close> arrives in one read and
  \<^verbatim>\<open>\nb\<close> in the next, the \<^verbatim>\<open>\r\<close> is kept as part of the line and the line returned is
  \<^verbatim>\<open>a\r\<close>; the same bytes arriving together give \<^verbatim>\<open>a\<close>.  A buffer of two bytes splits
  them in the same way whatever the connection does.
\<close>

theorem readline_split_crlf:
  "map_option fst
     (readline (new_Pipe \<lparr>incoming = [[CHR ''a'', CHR 0x0D], [CHR 0x0A, CHR ''b'']],
                          outgoing = []\<rparr> 4096) 65536)
     = Some (Inr (Some [CHR ''a'', CHR 0x0D]))
   \<and> map_option fst
     (readline (new_Pipe \<lparr>incoming = [[CHR ''a'', CHR 0x0D, CHR 0x0A, CHR ''b'']],
                          outgoing = []\<rparr> 4096) 65536)
     = Some (Inr (Some ''a''))
   \<and> map_option fst
     (readline (new_Pipe \<lparr>incoming = [[CHR ''a'', CHR 0x0D, CHR 0x0A, CHR ''b'']],
                          outgoing = []\<rparr> 2) 65536)
     = Some (Inr (Some [CHR ''a'', CHR 0x0D]))"
  by (simp add: readline_def readline_loop.simps find_newline.simps new_Pipe_def
      keep_available_def fill_def compact_def conn_read_def set_at_def subarray_def)

section \<open>Theorems: writing a response\<close>

lemma toStringRadix_204: "toStringRadix 10 204 = ''204''"
  by (simp add: toStringRadix.simps digit_char_def)

lemma and_then_thrown:
  assumes "and_then r f = (Inl e, s)"
  shows "(\<exists>s'. r = (Inl e, s')) \<or> (\<exists>a s'. r = (Inr a, s') \<and> f s' = (Inl e, s))"
  using assms by (auto simp: and_then_def split: prod.splits sum.splits)

lemma client_writeLine_thrown:
  "client_writeLine c l = (Inl e, c') \<Longrightarrow> e = Error ''Pipe is closed''"
  by (auto simp: client_writeLine_def writeLine_def Pipe_write_def conn_write_def
      split: prod.splits if_splits)

lemma client_write_thrown:
  "client_write c b = (Inl e, c') \<Longrightarrow> e = Error ''Pipe is closed''"
  by (auto simp: client_write_def Pipe_write_def conn_write_def split: prod.splits if_splits)

lemma writeLines_thrown:
  "writeLines c ls = (Inl e, c') \<Longrightarrow> e = Error ''Pipe is closed''"
proof (induction ls arbitrary: c)
  case Nil then show ?case by simp
next
  case (Cons l ls)
  from Cons.prems have "and_then (client_writeLine c l) (\<lambda>c. writeLines c ls) = (Inl e, c')"
    by simp
  from and_then_thrown [OF this] show ?case
    using client_writeLine_thrown Cons.IH by blast
qed

lemma writeHeaders_thrown:
  "writeHeaders c hs body = (Inl e, c') \<Longrightarrow> e = Error ''Pipe is closed''"
  unfolding writeHeaders_def Let_def
  by (drule and_then_thrown) (use writeLines_thrown client_writeLine_thrown in blast)

lemma writeResponse_thrown:
  assumes "writeResponse c code msg hs body = (Inl e, c')"
  shows "e = Error ''Pipe is closed''
       \<or> (e = AssertionFailed ''Only servers can write responses'' \<and> c' = c)
       \<or> (e = AssertionFailed ''Cannot write response: response already sent'' \<and> c' = c)
       \<or> (e = AssertionFailed ''204 response must not have a body'' \<and> c' = c
            \<and> code = 204 \<and> \<not> truthy body)"
proof (cases "role c = ROLE_SERVER \<and> \<not> sent c \<and> (code \<noteq> 204 \<or> truthy body)")
  case False
  then show ?thesis using assms
    by (auto simp: writeResponse_def assert_def split: if_splits)
next
  case True
  let ?c1 = "emit (c\<lparr>sent := True\<rparr>) (Ev_response code msg hs)"
  let ?b = "encode_body body"
  from True assms have
    "and_then (client_writeLine ?c1 (''HTTP/1.1 '' @ toStringRadix 10 code @ '' '' @ msg))
       (\<lambda>c. and_then (writeHeaders (emit c Ev_write) hs ?b)
          (\<lambda>c. let c = emit c Ev_write in
             (case ?b of
                BytesBody b \<Rightarrow> and_then (client_write c b) (\<lambda>c. (Inr (), emit c Ev_write))
              | _ \<Rightarrow> (Inr (), c)))) = (Inl e, c')"
    by (simp add: writeResponse_def assert_def Let_def)
  from and_then_thrown [OF this] have "e = Error ''Pipe is closed''"
  proof (elim disjE exE conjE)
    fix s' assume "client_writeLine ?c1 (''HTTP/1.1 '' @ toStringRadix 10 code @ '' '' @ msg) = (Inl e, s')"
    then show ?thesis by (rule client_writeLine_thrown)
  next
    fix a s'
    assume "and_then (writeHeaders (emit s' Ev_write) hs ?b)
          (\<lambda>c. let c = emit c Ev_write in
             (case ?b of
                BytesBody b \<Rightarrow> and_then (client_write c b) (\<lambda>c. (Inr (), emit c Ev_write))
              | _ \<Rightarrow> (Inr (), c))) = (Inl e, c')"
    from and_then_thrown [OF this] show ?thesis
    proof (elim disjE exE conjE)
      fix s'' assume "writeHeaders (emit s' Ev_write) hs ?b = (Inl e, s'')"
      then show ?thesis by (rule writeHeaders_thrown)
    next
      fix a' s''
      assume "(let c = emit s'' Ev_write in
             (case ?b of
                BytesBody b \<Rightarrow> and_then (client_write c b) (\<lambda>c. (Inr (), emit c Ev_write))
              | _ \<Rightarrow> (Inr (), c))) = (Inl e, c')"
      then show ?thesis
        by (cases ?b) (auto simp: Let_def dest!: and_then_thrown dest: client_write_thrown)
    qed
  qed
  then show ?thesis by simp
qed

text \<open>
  Claim C10, amended.  A call of \<^verbatim>\<open>writeResponse\<close> with status 204 and no body or the
  empty string as body throws a failed assertion and leaves the engine as it was:
  nothing is written and \<open>sent\<close> is not set.  With any other status, a non-empty string
  or a \<^verbatim>\<open>Uint8Array\<close> (of any length) the assertion about 204 does not fire.
\<close>

theorem writeResponse_204_guard:
  "(code = 204 \<and> (body = NoBody \<or> body = TextBody []) \<longrightarrow>
      (\<exists>m. writeResponse c code msg hs body = (Inl (AssertionFailed m), c)))
   \<and> (code \<noteq> 204 \<or> (\<exists>b. body = BytesBody b) \<or> (\<exists>s. body = TextBody s \<and> s \<noteq> []) \<longrightarrow>
      fst (writeResponse c code msg hs body)
        \<noteq> Inl (AssertionFailed ''204 response must not have a body''))"
proof (intro conjI impI)
  assume "code = 204 \<and> (body = NoBody \<or> body = TextBody [])"
  then show "\<exists>m. writeResponse c code msg hs body = (Inl (AssertionFailed m), c)"
    by (auto simp: writeResponse_def assert_def)
next
  assume a: "code \<noteq> 204 \<or> (\<exists>b. body = BytesBody b) \<or> (\<exists>s. body = TextBody s \<and> s \<noteq> [])"
  then have t: "code \<noteq> 204 \<or> truthy body" by auto
  show "fst (writeResponse c code msg hs body)
        \<noteq> Inl (AssertionFailed ''204 response must not have a body'')"
  proof
    assume "fst (writeResponse c code msg hs body)
        = Inl (AssertionFailed ''204 response must not have a body'')"
    then obtain c' where "writeResponse c code msg hs body
        = (Inl (AssertionFailed ''204 response must not have a body''), c')"
      by (cases "writeResponse c code msg hs body") auto
    from writeResponse_thrown [OF this] t show False by auto
  qed
qed

theorem writeResponse_204_guard_witness:
  "(\<exists>m. writeResponse fresh_server 204 ''No Content'' [] NoBody
          = (Inl (AssertionFailed m), fresh_server))
   \<and> (\<exists>m. writeResponse fresh_server 204 ''No Content'' [] (TextBody [])
          = (Inl (AssertionFailed m), fresh_server))
   \<and> fst (writeResponse fresh_server 200 ''OK'' [] NoBody)
        \<noteq> Inl (AssertionFailed ''204 response must not have a body'')
   \<and> fst (writeResponse fresh_server 204 ''No Content'' [] (TextBody ''x''))
        \<noteq> Inl (AssertionFailed ''204 response must not have a body'')"
  using writeResponse_204_guard [of 204 NoBody fresh_server "''No Content''" "[]"]
        writeResponse_204_guard [of 204 "TextBody []" fresh_server "''No Content''" "[]"]
        writeResponse_204_guard [of 200 NoBody fresh_server "''OK''" "[]"]
        writeResponse_204_guard [of 204 "TextBody ''x''" fresh_server "''No Content''" "[]"]
  by simp

text \<open>
  Claim C10 as stated fails for an empty body that is a \<^verbatim>\<open>Uint8Array\<close>: an array is true
  in a condition whatever its length, so the guard lets the call through; the response is
  marked as sent and written with \<^verbatim>\<open>content-length: 0\<close>.
\<close>

theorem writeResponse_204_empty_bytes:
  "fst (writeResponse fresh_server 204 ''No Content'' [] (BytesBody [])) = Inr ()
   \<and> sent (snd (writeResponse fresh_server 204 ''No Content'' [] (BytesBody [])))
   \<and> outgoing (conn (pipe (snd (writeResponse fresh_server 204 ''No Content'' [] (BytesBody [])))))
       = ''HTTP/1.1 204 No Content'' @ [CHR 0x0A] @ ''content-length: 0'' @ [CHR 0x0A, CHR 0x0A]"
  by (simp add: writeResponse_def assert_def fresh_server_def new_HTTPClient_def new_Pipe_def
      ROLE_SERVER_def emit_def and_then_def client_writeLine_def client_write_def writeLine_def
      Pipe_write_def conn_write_def writeHeaders_def normalize_headers_def header_lines_def
      body_length_text_def toStringRadix.simps digit_char_def Let_def)

section \<open>Theorems: app lifecycle and the cancellation wrapper\<close>

lemma ready_app_eq:
  "ready_app = \<lparr>name = ''T'', appModule = Some (), currentInfo = Some (), appState = INITIALIZED,
      stopPromise = 1, stopPromises = [False, False], startTime = None, stopTime = None,
      restartCount = 0, lastError = None, uptime = 0\<rparr>"
  by (simp add: ready_app_def init_def uninstall_def new_App_def resetStopPromise_def)

lemma running_app_eq:
  "running_app = \<lparr>name = ''T'', appModule = Some (), currentInfo = Some (), appState = RUNNING,
      stopPromise = 2, stopPromises = [False, False, False], startTime = Some 10, stopTime = None,
      restartCount = 0, lastError = None, uptime = 0\<rparr>"
  by (simp add: running_app_def ready_app_eq run_def assert_def resetStopPromise_def)

lemma stopped_app_eq:
  "stopped_app = \<lparr>name = ''T'', appModule = Some (), currentInfo = Some (), appState = STOPPED,
      stopPromise = 2, stopPromises = [False, False, True], startTime = Some 10, stopTime = Some 20,
      restartCount = 0, lastError = None, uptime = 10\<rparr>"
  by (simp add: stopped_app_def running_app_eq stop_def resolveStopPromise_def)

text \<open>
  Claim C6, amended.  \<^verbatim>\<open>run()\<close> does nothing on a RUNNING app and throws on an
  UNINITIALIZED or STOPPING one.  On an INITIALIZED or STOPPED app with its module and
  info it records \<open>startTime\<close>, installs a new, unresolved stop promise, and races the
  user's \<^verbatim>\<open>run()\<close> against the timer: an error thrown at the call, or a rejection that
  settles before the timer fires, is rethrown with \<open>lastError\<close> recorded and the state
  STOPPED; otherwise the call returns with the state RUNNING and \<open>lastError\<close> as it was.
\<close>

theorem run_starts_app:
  "(appState app = RUNNING \<longrightarrow> run app now outcome = (Done, app))
   \<and> (appState app = UNINITIALIZED \<or> appState app = STOPPING \<longrightarrow>
        (\<exists>e. run app now outcome = (Raised e, app)))
   \<and> ((appState app = INITIALIZED \<or> appState app = STOPPED)
        \<and> appModule app \<noteq> None \<and> currentInfo app \<noteq> None \<longrightarrow>
        startTime (snd (run app now outcome)) = Some now
        \<and> stopPromise (snd (run app now outcome)) = length (stopPromises app)
        \<and> stopPromises (snd (run app now outcome)) = stopPromises app @ [False]
        \<and> (case outcome of
             RunThrows e \<Rightarrow>
               fst (run app now outcome) = Raised e
               \<and> appState (snd (run app now outcome)) = STOPPED
               \<and> lastError (snd (run app now outcome)) = Some (getError e)
           | RunRejectsFirst e \<Rightarrow>
               fst (run app now outcome) = Raised e
               \<and> appState (snd (run app now outcome)) = STOPPED
               \<and> lastError (snd (run app now outcome)) = Some (getError e)
           | RunResolvesFirst \<Rightarrow>
               fst (run app now outcome) = Done
               \<and> appState (snd (run app now outcome)) = RUNNING
               \<and> lastError (snd (run app now outcome)) = lastError app
           | TimerFirst later \<Rightarrow>
               fst (run app now outcome) = Done
               \<and> appState (snd (run app now outcome)) = RUNNING
               \<and> lastError (snd (run app now outcome)) = lastError app))"
  by (cases outcome) (auto simp: run_def assert_def resetStopPromise_def Let_def)

theorem run_starts_app_witness:
  "appState ready_app = INITIALIZED \<and> appModule ready_app \<noteq> None \<and> currentInfo ready_app \<noteq> None
   \<and> run ready_app 10 (RunRejectsFirst (Error ''boom''))
       = (Raised (Error ''boom''),
          running_app\<lparr>lastError := Some ''boom'', appState := STOPPED\<rparr>)
   \<and> appState running_app = RUNNING \<and> startTime running_app = Some 10
   \<and> stopPromise running_app = 2 \<and> stopPromises running_app = [False, False, False]
   \<and> run running_app 30 RunResolvesFirst = (Done, running_app)
   \<and> (\<exists>e. run (new_App ''T'' :: (unit, unit) App) 0 RunResolvesFirst = (Raised e, new_App ''T''))"
proof -
  have 1: "appState ready_app = INITIALIZED" "appModule ready_app \<noteq> None"
    "currentInfo ready_app \<noteq> None" by (simp_all add: ready_app_eq)
  have 2: "run ready_app 10 (RunRejectsFirst (Error ''boom''))
       = (Raised (Error ''boom''), running_app\<lparr>lastError := Some ''boom'', appState := STOPPED\<rparr>)"
    by (simp add: ready_app_eq running_app_eq run_def assert_def resetStopPromise_def)
  have 3: "appState running_app = RUNNING \<and> startTime running_app = Some 10
   \<and> stopPromise running_app = 2 \<and> stopPromises running_app = [False, False, False]"
    using run_starts_app [of ready_app 10 "TimerFirst None"] 1
    by (simp add: running_app_def) (simp add: ready_app_eq)
  have 4: "run running_app 30 RunResolvesFirst = (Done, running_app)"
    using run_starts_app [of running_app 30 RunResolvesFirst] 3 by simp
  have 5: "\<exists>e. run (new_App ''T'' :: (unit, unit) App) 0 RunResolvesFirst = (Raised e, new_App ''T'')"
    using run_starts_app [of "new_App ''T'' :: (unit, unit) App" 0 RunResolvesFirst]
    by (simp add: new_App_def)
  show ?thesis using 1 2 3 4 5 by simp
qed

text \<open>
  Claim C6 as stated fails for an error of the user's \<^verbatim>\<open>run()\<close> that comes after the
  timer has fired: the race is over, nothing observes the rejection, the state stays
  RUNNING and \<open>lastError\<close> stays empty.
\<close>

theorem run_late_error_counterexample:
  "fst (run ready_app 10 (TimerFirst (Some (Error ''boom'')))) = Done
   \<and> appState (snd (run ready_app 10 (TimerFirst (Some (Error ''boom''))))) = RUNNING
   \<and> lastError (snd (run ready_app 10 (TimerFirst (Some (Error ''boom''))))) = None"
  by (simp add: ready_app_eq run_def assert_def resetStopPromise_def)

lemma stop_sets_token:
  assumes "appState app = RUNNING" "appModule app \<noteq> None"
    "stopPromise app < length (stopPromises app)"
  shows "stopPromise (snd (stop app now stopped)) = stopPromise app"
    and "length (stopPromises (snd (stop app now stopped))) = length (stopPromises app)"
    and "stopPromises (snd (stop app now stopped)) ! stopPromise app"
    and "appState (snd (stop app now stopped)) = STOPPING
         \<or> appState (snd (stop app now stopped)) = STOPPED"
  using assms
  by (cases stopped; auto simp: stop_def resolveStopPromise_def Let_def split: option.splits)+

text \<open>
  The stop promises over the life of an app.  No operation makes an earlier stop promise
  the current one again, and none resolves a stop promise other than the current one: the
  index of the current promise never decreases, it stays within the list, and the
  promises before it are left as they are.
\<close>

lemma stop_keeps:
  assumes "stopPromise app < length (stopPromises app)"
  shows "stopPromise app \<le> stopPromise (snd (stop app now stopped))
       \<and> stopPromise (snd (stop app now stopped)) < length (stopPromises (snd (stop app now stopped)))
       \<and> (\<forall>t < stopPromise app. stopPromises (snd (stop app now stopped)) ! t = stopPromises app ! t)"
  using assms
  by (cases stopped) (auto simp: stop_def resolveStopPromise_def Let_def split: option.splits)

lemma run_keeps:
  assumes "stopPromise app < length (stopPromises app)"
  shows "stopPromise app \<le> stopPromise (snd (run app now outcome))
       \<and> stopPromise (snd (run app now outcome)) < length (stopPromises (snd (run app now outcome)))
       \<and> (\<forall>t < stopPromise app. stopPromises (snd (run app now outcome)) ! t = stopPromises app ! t)"
  using assms
  by (cases outcome)
     (auto simp: run_def assert_def resetStopPromise_def Let_def nth_append split: option.splits)

lemma resetStopPromise_keeps:
  assumes "stopPromise app < length (stopPromises app)"
  shows "stopPromise app \<le> stopPromise (resetStopPromise app)
       \<and> stopPromise (resetStopPromise app) < length (stopPromises (resetStopPromise app))
       \<and> (\<forall>t < stopPromise app. stopPromises (resetStopPromise app) ! t = stopPromises app ! t)"
  using assms by (auto simp: resetStopPromise_def nth_append)

lemma restart_keeps:
  assumes "stopPromise app < length (stopPromises app)"
  shows "stopPromise app \<le> stopPromise (snd (restart app now stopped now' outcome))
       \<and> stopPromise (snd (restart app now stopped now' outcome))
           < length (stopPromises (snd (restart app now stopped now' outcome)))
       \<and> (\<forall>t < stopPromise app.
             stopPromises (snd (restart app now stopped now' outcome)) ! t = stopPromises app ! t)"
proof -
  obtain r app1 where s: "stop app now stopped = (r, app1)" by (cases "stop app now stopped")
  have k1: "stopPromise app \<le> stopPromise app1" "stopPromise app1 < length (stopPromises app1)"
    "\<forall>t < stopPromise app. stopPromises app1 ! t = stopPromises app ! t"
    using stop_keeps [OF assms, of now stopped] s by simp_all
  show ?thesis
  proof (cases r)
    case Done
    let ?app2 = "resetStopPromise (app1\<lparr>restartCount := restartCount app1 + 1\<rparr>)"
    have w: "stopPromise (app1\<lparr>restartCount := restartCount app1 + 1\<rparr>)
        < length (stopPromises (app1\<lparr>restartCount := restartCount app1 + 1\<rparr>))"
      using k1(2) by simp
    have k2: "stopPromise app1 \<le> stopPromise ?app2" "stopPromise ?app2 < length (stopPromises ?app2)"
      "\<forall>t < stopPromise app1. stopPromises ?app2 ! t = stopPromises app1 ! t"
      using resetStopPromise_keeps [OF w] by simp_all
    have k3: "stopPromise ?app2 \<le> stopPromise (snd (run ?app2 now' outcome))"
      "stopPromise (snd (run ?app2 now' outcome))
         < length (stopPromises (snd (run ?app2 now' outcome)))"
      "\<forall>t < stopPromise ?app2. stopPromises (snd (run ?app2 now' outcome)) ! t = stopPromises ?app2 ! t"
      using run_keeps [OF k2(2), of now' outcome] by simp_all
    have r: "restart app now stopped now' outcome = run ?app2 now' outcome"
      by (simp add: restart_def s Done)
    show ?thesis using k1 k2 k3 by (simp only: r) auto
  next
    case (Raised e)
    then show ?thesis using k1 by (simp add: restart_def s)
  next
    case NeverReturns
    then show ?thesis using k1 by (simp add: restart_def s)
  qed
qed

lemma uninstall_keeps:
  assumes "stopPromise app < length (stopPromises app)"
  shows "stopPromise app \<le> stopPromise (snd (uninstall app now stopped))
       \<and> stopPromise (snd (uninstall app now stopped))
           < length (stopPromises (snd (uninstall app now stopped)))
       \<and> (\<forall>t < stopPromise app. stopPromises (snd (uninstall app now stopped)) ! t = stopPromises app ! t)"
proof -
  obtain r app1 where s: "stop app now stopped = (r, app1)" by (cases "stop app now stopped")
  have k1: "stopPromise app \<le> stopPromise app1" "stopPromise app1 < length (stopPromises app1)"
    "\<forall>t < stopPromise app. stopPromises app1 ! t = stopPromises app ! t"
    using stop_keeps [OF assms, of now stopped] s by simp_all
  show ?thesis using assms k1 by (cases r) (auto simp: uninstall_def s)
qed

lemma init_keeps:
  assumes "stopPromise app < length (stopPromises app)"
  shows "stopPromise app \<le> stopPromise (snd (init app curInfo now stopped missing imported constructed inited))
       \<and> stopPromise (snd (init app curInfo now stopped missing imported constructed inited))
           < length (stopPromises (snd (init app curInfo now stopped missing imported constructed inited)))
       \<and> (\<forall>t < stopPromise app.
             stopPromises (snd (init app curInfo now stopped missing imported constructed inited)) ! t
               = stopPromises app ! t)"
proof -
  obtain r app1 where u: "uninstall app now stopped = (r, app1)"
    by (cases "uninstall app now stopped")
  have k1: "stopPromise app \<le> stopPromise app1" "stopPromise app1 < length (stopPromises app1)"
    "\<forall>t < stopPromise app. stopPromises app1 ! t = stopPromises app ! t"
    using uninstall_keeps [OF assms, of now stopped] u by simp_all
  show ?thesis using assms k1
    by (cases r; cases constructed; cases inited)
       (auto simp: init_def u init_failed_def resetStopPromise_def Let_def nth_append
             split: option.splits)
qed

lemma perform_keeps:
  assumes "stopPromise app < length (stopPromises app)"
  shows "stopPromise app \<le> stopPromise (perform app op)
       \<and> stopPromise (perform app op) < length (stopPromises (perform app op))
       \<and> (\<forall>t < stopPromise app. stopPromises (perform app op) ! t = stopPromises app ! t)"
proof (cases op)
  case (Init curInfo now stopped missing imported constructed inited)
  show ?thesis by (simp only: Init perform.simps) (rule init_keeps [OF assms])
next
  case (Run now outcome)
  show ?thesis by (simp only: Run perform.simps) (rule run_keeps [OF assms])
next
  case (Stop now stopped)
  show ?thesis by (simp only: Stop perform.simps) (rule stop_keeps [OF assms])
next
  case (Restart now stopped now' outcome)
  show ?thesis by (simp only: Restart perform.simps) (rule restart_keeps [OF assms])
next
  case (Uninstall now stopped)
  show ?thesis by (simp only: Uninstall perform.simps) (rule uninstall_keeps [OF assms])
qed

lemma performs_keeps:
  assumes "stopPromise app < length (stopPromises app)"
  shows "stopPromise app \<le> stopPromise (performs app ops)
       \<and> stopPromise (performs app ops) < length (stopPromises (performs app ops))
       \<and> (\<forall>t < stopPromise app. stopPromises (performs app ops) ! t = stopPromises app ! t)"
  using assms
proof (induction ops arbitrary: app)
  case Nil
  then show ?case by (simp add: performs_def)
next
  case (Cons op ops)
  have k1: "stopPromise app \<le> stopPromise (perform app op)"
    "stopPromise (perform app op) < length (stopPromises (perform app op))"
    "\<forall>t < stopPromise app. stopPromises (perform app op) ! t = stopPromises app ! t"
    using perform_keeps [OF Cons.prems, of op] by simp_all
  have k2: "stopPromise (perform app op) \<le> stopPromise (performs (perform app op) ops)"
    "stopPromise (performs (perform app op) ops)
       < length (stopPromises (performs (perform app op) ops))"
    "\<forall>t < stopPromise (perform app op).
        stopPromises (performs (perform app op) ops) ! t = stopPromises (perform app op) ! t"
    using Cons.IH [OF k1(2)] by simp_all
  have p: "performs app (op # ops) = performs (perform app op) ops" by (simp add: performs_def)
  show ?case using k1 k2 by (simp only: p) auto
qed

lemma run_new_token:
  assumes "appState app = INITIALIZED \<or> appState app = STOPPED"
    "appModule app \<noteq> None" "currentInfo app \<noteq> None"
    "stopPromise app < length (stopPromises app)"
  shows "stopPromise app < stopPromise (snd (run app now outcome))"
    and "stopPromise (snd (run app now outcome)) < length (stopPromises (snd (run app now outcome)))"
    and "stopPromises (snd (run app now outcome)) ! stopPromise app = stopPromises app ! stopPromise app"
  using assms
  by (cases outcome; auto simp: run_def assert_def resetStopPromise_def Let_def nth_append)+

lemma init_new_token:
  assumes "fst (init app curInfo now stopped missing imported constructed inited) = Done"
    "stopPromise app < length (stopPromises app)"
  shows "stopPromise app < stopPromise (snd (init app curInfo now stopped missing imported constructed inited))"
    and "stopPromise (snd (init app curInfo now stopped missing imported constructed inited))
           < length (stopPromises (snd (init app curInfo now stopped missing imported constructed inited)))"
    and "stopPromises (snd (init app curInfo now stopped missing imported constructed inited)) ! stopPromise app
           = stopPromises app ! stopPromise app"
proof -
  obtain r app1 where u: "uninstall app now stopped = (r, app1)"
    by (cases "uninstall app now stopped")
  obtain r0 app0 where s: "stop app now stopped = (r0, app0)" by (cases "stop app now stopped")
  have running: "appState app \<noteq> RUNNING" using assms(1) by (auto simp: init_def)
  have a1: "stopPromise app1 = stopPromise app" "stopPromises app1 = stopPromises app"
    using u running by (auto simp: uninstall_def split: if_splits)
  have d: "r = Done" using assms(1) running u
    by (cases r) (auto simp: init_def)
  show "stopPromise app < stopPromise (snd (init app curInfo now stopped missing imported constructed inited))"
    and "stopPromise (snd (init app curInfo now stopped missing imported constructed inited))
           < length (stopPromises (snd (init app curInfo now stopped missing imported constructed inited)))"
    and "stopPromises (snd (init app curInfo now stopped missing imported constructed inited)) ! stopPromise app
           = stopPromises app ! stopPromise app"
    using assms a1 d running
    by (cases constructed; cases inited;
        auto simp: init_def u init_failed_def resetStopPromise_def Let_def nth_append
             split: option.splits)+
qed

text \<open>
  Claim C1, amended.  \<open>(1)\<close> A call made on a RUNNING app with a pending argument and
  still waiting when \<^verbatim>\<open>stop()\<close> runs: it rejects with ``App stopped'' if the argument is
  still pending when the callbacks of the stop promise run, whatever the module's
  \<^verbatim>\<open>stop()\<close> returns or throws; it resolves to the argument's value if the argument was
  fulfilled by then, as when the module's \<^verbatim>\<open>stop()\<close> fulfils it; it rejects with ``App
  stopped'' if the argument was rejected by then.  Before \<^verbatim>\<open>stop()\<close>, it resolves to the
  value the argument fulfils with and rejects with the error the argument rejects with.
  A call made after \<^verbatim>\<open>stop()\<close> has begun rejects with ``App stopped'' if its argument is
  pending, and resolves if its argument is a plain value.  \<open>(2)\<close> A stop promise that is
  no longer the current one is resolved by no sequence of lifecycle operations, so a call
  waiting on it is never rejected on account of a stop.  \<open>(3)\<close> \<^verbatim>\<open>run()\<close>, and an
  \<^verbatim>\<open>init()\<close> that succeeds, replace the current stop promise: a call made before,
  with a pending argument, stays waiting through everything that is done to the app
  afterwards.
\<close>

theorem wrapper_races_stop:
  fixes x :: 'a
  shows
   "(appState app = RUNNING \<and> appModule app \<noteq> None
       \<and> stopPromise app < length (stopPromises app) \<longrightarrow>
       stop_call app now stopped None (wrapper app (None :: (thrown + 'a) option))
         = Failed (Error ''App stopped'')
     \<and> stop_call app now stopped (Some (Inr x)) (wrapper app None) = Fulfilled x
     \<and> stop_call app now stopped (Some (Inl e)) (wrapper app (None :: (thrown + 'a) option))
         = Failed (Error ''App stopped'')
     \<and> settles app (wrapper app None) (Inr x) = Fulfilled x
     \<and> settles app (wrapper app (None :: (thrown + 'a) option)) (Inl e) = Failed e
     \<and> stop_reactions (snd (stop app now stopped))
          (wrapper (snd (stop app now stopped)) (None :: (thrown + 'a) option))
         = Failed (Error ''App stopped'')
     \<and> wrapper (snd (stop app now stopped)) (Some (Inr x)) = Fulfilled x)
  \<and> (stopPromise app < length (stopPromises app) \<and> t < stopPromise app \<longrightarrow>
       stopPromises (performs app ops) ! t = stopPromises app ! t
     \<and> (\<not> stopPromises app ! t \<longrightarrow>
          stop_reactions (performs app ops) (Waiting t :: 'a wrapped) = Waiting t))
  \<and> (stopPromise app < length (stopPromises app) \<and> \<not> stopPromises app ! stopPromise app
       \<and> ((appState app = INITIALIZED \<or> appState app = STOPPED)
              \<and> appModule app \<noteq> None \<and> currentInfo app \<noteq> None
              \<and> app' = snd (run app now outcome)
           \<or> fst (init app curInfo now stopped missing imported constructed inited) = Done
              \<and> app' = snd (init app curInfo now stopped missing imported constructed inited))
       \<longrightarrow>
       stop_reactions (performs app' ops) (wrapper app (None :: (thrown + 'a) option))
         = wrapper app None)"
proof (intro conjI impI)
  assume a: "appState app = RUNNING \<and> appModule app \<noteq> None
       \<and> stopPromise app < length (stopPromises app)"
  note st = stop_sets_token [of app now stopped]
  have s: "stopPromise (snd (stop app now stopped)) = stopPromise app"
    "stopPromise app < length (stopPromises (snd (stop app now stopped)))"
    "stopPromises (snd (stop app now stopped)) ! stopPromise app"
    "appState (snd (stop app now stopped)) = STOPPING
       \<or> appState (snd (stop app now stopped)) = STOPPED"
    using st a by simp_all
  show "stop_call app now stopped None (wrapper app (None :: (thrown + 'a) option))
         = Failed (Error ''App stopped'')"
    using s by (auto simp: stop_call_def wrapper_def stop_reactions_def wrapper_catch_def)
  show "stop_call app now stopped (Some (Inr x)) (wrapper app None) = Fulfilled x"
    by (simp add: stop_call_def wrapper_def settles_def stop_reactions_def)
  show "stop_call app now stopped (Some (Inl e)) (wrapper app (None :: (thrown + 'a) option))
         = Failed (Error ''App stopped'')"
    using s(4) by (auto simp: stop_call_def wrapper_def settles_def stop_reactions_def wrapper_catch_def)
  show "settles app (wrapper app None) (Inr x) = Fulfilled x"
    by (simp add: wrapper_def settles_def)
  show "settles app (wrapper app (None :: (thrown + 'a) option)) (Inl e) = Failed e"
    using a by (simp add: wrapper_def settles_def wrapper_catch_def)
  show "stop_reactions (snd (stop app now stopped))
          (wrapper (snd (stop app now stopped)) (None :: (thrown + 'a) option))
         = Failed (Error ''App stopped'')"
    using s by (auto simp: wrapper_def stop_reactions_def wrapper_catch_def)
  show "wrapper (snd (stop app now stopped)) (Some (Inr x)) = Fulfilled x"
    by (simp add: wrapper_def)
next
  assume a: "stopPromise app < length (stopPromises app) \<and> t < stopPromise app"
  then have wf: "stopPromise app < length (stopPromises app)" and t: "t < stopPromise app"
    by simp_all
  from performs_keeps [OF wf, of ops] t
  show k: "stopPromises (performs app ops) ! t = stopPromises app ! t" by simp
  assume "\<not> stopPromises app ! t"
  then show "stop_reactions (performs app ops) (Waiting t :: 'a wrapped) = Waiting t"
    using k by (simp add: stop_reactions_def)
next
  assume a: "stopPromise app < length (stopPromises app) \<and> \<not> stopPromises app ! stopPromise app
       \<and> ((appState app = INITIALIZED \<or> appState app = STOPPED)
              \<and> appModule app \<noteq> None \<and> currentInfo app \<noteq> None
              \<and> app' = snd (run app now outcome)
           \<or> fst (init app curInfo now stopped missing imported constructed inited) = Done
              \<and> app' = snd (init app curInfo now stopped missing imported constructed inited))"
  then have wf: "stopPromise app < length (stopPromises app)"
    and un: "\<not> stopPromises app ! stopPromise app" by simp_all
  have n: "stopPromise app < stopPromise app' \<and> stopPromise app' < length (stopPromises app')
      \<and> stopPromises app' ! stopPromise app = stopPromises app ! stopPromise app"
    using a run_new_token [of app now outcome]
      init_new_token [of app curInfo now stopped missing imported constructed inited]
    by auto
  from performs_keeps [of app' ops] n
  have "stopPromises (performs app' ops) ! stopPromise app = stopPromises app ! stopPromise app"
    by simp
  then show "stop_reactions (performs app' ops) (wrapper app (None :: (thrown + 'a) option))
         = wrapper app None"
    using un by (simp add: wrapper_def stop_reactions_def)
qed

theorem wrapper_races_stop_witness:
  "appState running_app = RUNNING \<and> appModule running_app \<noteq> None
   \<and> stopPromise running_app < length (stopPromises running_app)
   \<and> stop_call running_app 20 (Throws (Error ''late'')) None
        (wrapper running_app (None :: (thrown + nat) option)) = Failed (Error ''App stopped'')
   \<and> stop_call running_app 20 (Throws (Error ''late'')) (Some (Inr 7))
        (wrapper running_app (None :: (thrown + nat) option)) = Fulfilled 7
   \<and> stop_call running_app 20 (Throws (Error ''late'')) (Some (Inl (Error ''boom'')))
        (wrapper running_app (None :: (thrown + nat) option)) = Failed (Error ''App stopped'')
   \<and> settles running_app (wrapper running_app (None :: (thrown + nat) option))
        (Inl (Error ''boom'')) = Failed (Error ''boom'')
   \<and> 1 < stopPromise running_app \<and> \<not> stopPromises running_app ! 1
   \<and> stop_reactions
        (performs running_app [Stop 20 Returns, Run 30 RunResolvesFirst, Stop 40 Hangs])
        (Waiting 1 :: nat wrapped) = Waiting 1
   \<and> appState ready_app = INITIALIZED \<and> appModule ready_app \<noteq> None
   \<and> currentInfo ready_app \<noteq> None \<and> stopPromise ready_app < length (stopPromises ready_app)
   \<and> \<not> stopPromises ready_app ! stopPromise ready_app
   \<and> running_app = snd (run ready_app 10 (TimerFirst None))
   \<and> wrapper ready_app (None :: (thrown + nat) option) = Waiting 1
   \<and> stop_reactions (performs running_app [Stop 20 Returns])
        (wrapper ready_app (None :: (thrown + nat) option)) = Waiting 1"
proof -
  have 1: "appState running_app = RUNNING" "appModule running_app \<noteq> None"
    "stopPromise running_app < length (stopPromises running_app)"
    "1 < stopPromise running_app" "\<not> stopPromises running_app ! 1"
    by (simp_all add: running_app_eq)
  have 2: "appState ready_app = INITIALIZED" "appModule ready_app \<noteq> None"
    "currentInfo ready_app \<noteq> None" "stopPromise ready_app < length (stopPromises ready_app)"
    "\<not> stopPromises ready_app ! stopPromise ready_app"
    "wrapper ready_app (None :: (thrown + nat) option) = Waiting 1"
    by (simp_all add: ready_app_eq wrapper_def)
  have 3: "running_app = snd (run ready_app 10 (TimerFirst None))" by (simp add: running_app_def)
  note a = wrapper_races_stop [where app = running_app and now = 20
      and stopped = "Throws (Error ''late'')" and x = "7 :: nat" and e = "Error ''boom''"
      and t = 1 and ops = "[Stop 20 Returns, Run 30 RunResolvesFirst, Stop 40 Hangs]"]
  note b = wrapper_races_stop [where app = ready_app and now = 10 and outcome = "TimerFirst None"
      and app' = running_app and ops = "[Stop 20 Returns]" and x = "7 :: nat"]
  have 4: "stop_call running_app 20 (Throws (Error ''late'')) None
        (wrapper running_app (None :: (thrown + nat) option)) = Failed (Error ''App stopped'')"
    "stop_call running_app 20 (Throws (Error ''late'')) (Some (Inr 7))
        (wrapper running_app (None :: (thrown + nat) option)) = Fulfilled 7"
    "stop_call running_app 20 (Throws (Error ''late'')) (Some (Inl (Error ''boom'')))
        (wrapper running_app (None :: (thrown + nat) option)) = Failed (Error ''App stopped'')"
    "settles running_app (wrapper running_app (None :: (thrown + nat) option))
        (Inl (Error ''boom'')) = Failed (Error ''boom'')"
    "stop_reactions
        (performs running_app [Stop 20 Returns, Run 30 RunResolvesFirst, Stop 40 Hangs])
        (Waiting 1 :: nat wrapped) = Waiting 1"
    using a 1 by simp_all
  have 5: "stop_reactions (performs running_app [Stop 20 Returns])
        (wrapper ready_app (None :: (thrown + nat) option)) = Waiting 1"
    using b 2 3 by simp
  show ?thesis using 1 2 3 4 5 by simp
qed

text \<open>
  Claim C1 as stated fails in two ways.  The module's \<^verbatim>\<open>stop()\<close> runs after the stop
  promise has been resolved and before its callbacks: a call whose argument that hook
  fulfils resolves, although \<^verbatim>\<open>stop()\<close> had begun while the argument was pending.  And
  a call made before the stop promise was replaced is out of reach of \<^verbatim>\<open>stop()\<close>: the
  module gets the wrapper in its constructor, a call made there waits on promise 0,
  \<^verbatim>\<open>init\<close> and \<^verbatim>\<open>run\<close> replace the promise, \<^verbatim>\<open>stop()\<close> resolves the newest one, and the
  early call is still pending when the app has stopped.
\<close>

theorem wrapper_stale_token_counterexample:
  "stop_call running_app 20 Returns (Some (Inr 7))
     (wrapper running_app (None :: (thrown + nat) option)) = Fulfilled 7
   \<and> wrapper (new_App ''T'' :: (unit, unit) App) (None :: (thrown + nat) option) = Waiting 0
   \<and> appState stopped_app = STOPPED
   \<and> stop_reactions stopped_app (Waiting 0 :: nat wrapped) = Waiting 0"
  by (simp add: wrapper_def new_App_def stopped_app_eq running_app_eq stop_reactions_def
      settles_def stop_call_def)


section \<open>Theorems: control route\<close>

lemma control_switch_None:
  "control_switch app cmd s = None \<longleftrightarrow>
     cmd \<noteq> ''START'' \<and> cmd \<noteq> ''STOP'' \<and> cmd \<noteq> ''RESTART'' \<and> cmd \<noteq> ''RELOAD''"
  by (simp add: control_switch_def)






section \<open>Chunked transfer: what is written is what is read\<close>

subsection \<open>Filling the buffer keeps the stream\<close>


lemma fill_eof:
  assumes ok: "pipe_ok p" and inc: "incoming (conn p) = []"
  shows "\<exists>p'. fill p = (Inr None, p')"
  using assms by (simp add: fill_def pipe_ok_def conn_read_def Let_def compact_def)


subsection \<open>Reading a line and reading a block\<close>


















subsection \<open>Hexadecimal chunk sizes\<close>












subsection \<open>The writing side\<close>













subsection \<open>The reading side\<close>






















lemma wire_blank:
  "wire [''ab''] blank_trailers
     = ''2'' @ [CHR 0x0A] @ ''ab'' @ [CHR 0x0A] @ ''0'' @ [CHR 0x0A] @ ''X:  a'' @ [CHR 0x0A, CHR 0x0A]"
  by (simp add: blank_trailers_def wire_def wire_chunk_def
      wire_lines_def trailer_fields_def toStringRadix.simps digit_char_def)








end
